theory Spec2Isabelle
  imports Main "HOL-Library.AList"
begin

section \<open>Values, dictionaries and objects\<close>

text \<open>
  The Layout core of \<^verbatim>\<open>src/idom/core/layout.py\<close> works on Python objects with identity:
  model dictionaries that are shared and mutated in place, \<^verbatim>\<open>ElementState\<close> tuples,
  \<^verbatim>\<open>LifeCycleHook\<close> objects. Objects with identity live in stores (lists indexed by a
  reference); a new object is appended to its store, so that its reference differs from
  every reference in use. Lists and tuples are read but never mutated through an alias by
  the Layout, and are values.
\<close>

type_synonym ref = nat
type_synonym elem = nat
type_synonym fn = nat

datatype exn = KeyError | TypeError | AttributeError | HostError string | CancelledError

text \<open>
  Modelled from the spec: \<^verbatim>\<open>EventHandler\<close> (\<^verbatim>\<open>idom/core/events.py\<close> is not part of the
  sources): "an addressable, callable bundle of callbacks", with a stable string id and
  an ordered list of callbacks.
\<close>

datatype event_handler = EventHandler (hid: string) (callbacks: "fn list")

datatype val =
    VNone
  | VStr string
  | VInt int
  | VFn fn
  | VHandler event_handler
  | VRef ref
  | VList "val list"
  | VTuple "val list"
  | VElem elem

type_synonym dict = "(string \<times> val) list"

text \<open>One \<^verbatim>\<open>next(gen)\<close> on the generator of an element's \<^verbatim>\<open>render()\<close> coroutine.\<close>

datatype gstep = GYield val nat | GReturn val | GRaise exn

record element_state =
  model :: ref
  element_obj :: elem
  event_handler_ids :: "string set"
  child_elements_ids :: "string list"
  life_cycle_hook :: ref

text \<open>
  Modelled from the spec: \<^verbatim>\<open>LifeCycleHook\<close> (\<^verbatim>\<open>idom/core/hooks.py\<close> is not part of the
  sources): the per-element container of the hook cells, with the cursor that
  \<^verbatim>\<open>element_will_render\<close> resets.
\<close>

record hook =
  hook_element :: elem
  cursor :: nat
  cells :: "val list"

datatype event =
    WillRender ref
  | DidRender ref
  | WillUnmount ref
  | SetCurrent ref
  | UnsetCurrent ref
  | Called fn "val list"

text \<open>
  What the host supplies: the elements (their ids and the code of their \<^verbatim>\<open>render\<close>
  coroutines, which runs against the current hook), the plain callables, the id that
  \<^verbatim>\<open>EventHandler()\<close> gives its \<open>n\<close>-th instance, and Python's \<^verbatim>\<open>str\<close>.
\<close>

record host =
  elem_id :: "elem \<Rightarrow> string"
  elem_render :: "elem \<Rightarrow> nat \<Rightarrow> hook \<Rightarrow> gstep \<times> hook"
  fn_call :: "fn \<Rightarrow> val list \<Rightarrow> exn option"
  new_handler_id :: "nat \<Rightarrow> string"
  str_of :: "val \<Rightarrow> string"

section \<open>FutureQueue\<close>

text \<open>
  \<^verbatim>\<open>_pending\<close> holds the futures of the tasks that were put and have not finished, by
  \<^verbatim>\<open>id(future)\<close>; \<^verbatim>\<open>_done\<close> is the FIFO channel of finished futures, each with its outcome
  (\<open>Inl\<close> the failure it raises when awaited, \<open>Inr\<close> its result).
\<close>

record ('t, 'r) future_queue =
  fq_pending :: "(nat \<times> 't) list"
  fq_done :: "(nat \<times> (exn + 'r)) list"
  fq_next :: nat

definition fq_init :: "('t, 'r) future_queue" where
  "fq_init = \<lparr>fq_pending = [], fq_done = [], fq_next = 0\<rparr>"

definition fq_put :: "'t \<Rightarrow> ('t, 'r) future_queue \<Rightarrow> ('t, 'r) future_queue" where
  "fq_put t q = q\<lparr>fq_pending := fq_pending q @ [(fq_next q, t)], fq_next := Suc (fq_next q)\<rparr>"

text \<open>
  The \<^verbatim>\<open>finally\<close> block of \<^verbatim>\<open>wrapper\<close>, run when the future \<open>i\<close> reaches a terminal state
  with outcome \<open>out\<close>: the future leaves \<^verbatim>\<open>_pending\<close> and is put on \<^verbatim>\<open>_done\<close>.
  \<open>None\<close>: no such future is pending.
\<close>

definition fq_finish ::
  "nat \<Rightarrow> (exn + 'r) \<Rightarrow> ('t, 'r) future_queue \<Rightarrow> ('t, 'r) future_queue option" where
  "fq_finish i out q =
     (if i \<in> fst ` set (fq_pending q)
      then Some (q\<lparr>fq_pending := filter (\<lambda>p. fst p \<noteq> i) (fq_pending q),
                    fq_done := fq_done q @ [(i, out)]\<rparr>)
      else None)"

text \<open>
  \<^verbatim>\<open>get\<close>: \<open>None\<close> while \<^verbatim>\<open>_done\<close> is empty (the caller stays suspended); otherwise the
  first finished future is taken off \<^verbatim>\<open>_done\<close> and awaited, which returns its result or
  raises its failure.
\<close>

definition fq_get ::
  "('t, 'r) future_queue \<Rightarrow> ((nat \<times> (exn + 'r)) \<times> ('t, 'r) future_queue) option" where
  "fq_get q =
     (case fq_done q of
        [] \<Rightarrow> None
      | f # fs \<Rightarrow> Some (f, q\<lparr>fq_done := fs\<rparr>))"

section \<open>The Layout\<close>

record layout =
  root :: elem
  dicts :: "dict list"
  objs :: "element_state list"
  hooks :: "hook list"
  element_states :: "string \<rightharpoonup> ref"
  event_handlers :: "string \<rightharpoonup> event_handler"
  rendering_queue :: "(elem, val) future_queue"
  next_hid :: nat
  hook_stack :: "ref list"
  trace :: "event list"

text \<open>
  The outcome of a piece of Layout code: it returns a value and the state it leaves, or
  raises, or does not return within the steps it was given. The state a raise leaves
  behind is not kept.
\<close>

datatype 'a result = OutOfFuel | Raise exn | Return 'a layout

definition and_then :: "'a result \<Rightarrow> ('a \<Rightarrow> layout \<Rightarrow> 'b result) \<Rightarrow> 'b result" where
  "and_then r f = (case r of OutOfFuel \<Rightarrow> OutOfFuel | Raise e \<Rightarrow> Raise e | Return x L \<Rightarrow> f x L)"

definition alloc :: "dict \<Rightarrow> layout \<Rightarrow> ref \<times> layout" where
  "alloc d L = (length (dicts L), L\<lparr>dicts := dicts L @ [d]\<rparr>)"

definition callable :: "val \<Rightarrow> bool" where
  "callable v = (case v of VFn f \<Rightarrow> True | VHandler h \<Rightarrow> True | _ \<Rightarrow> False)"

definition is_event_handler :: "val \<Rightarrow> bool" where
  "is_event_handler v = (case v of VHandler h \<Rightarrow> True | _ \<Rightarrow> False)"

definition the_handler :: "val \<Rightarrow> event_handler" where
  "the_handler v = (case v of VHandler h \<Rightarrow> h | _ \<Rightarrow> EventHandler [] [])"

subsection \<open>LifeCycleHook and the hook runtime\<close>

text \<open>
  Modelled from the spec: the methods of \<^verbatim>\<open>LifeCycleHook\<close>. \<^verbatim>\<open>set_current\<close> and
  \<^verbatim>\<open>unset_current\<close> "push/pop this hook onto the hook-runtime stack";
  \<^verbatim>\<open>element_will_render\<close> "resets the hook cursor to position 0"; every call is recorded
  in the trace.
\<close>

definition set_current :: "ref \<Rightarrow> layout \<Rightarrow> layout" where
  "set_current h L = L\<lparr>hook_stack := h # hook_stack L, trace := trace L @ [SetCurrent h]\<rparr>"

definition unset_current :: "ref \<Rightarrow> layout \<Rightarrow> layout" where
  "unset_current h L = L\<lparr>hook_stack := tl (hook_stack L), trace := trace L @ [UnsetCurrent h]\<rparr>"

definition element_will_render :: "ref \<Rightarrow> layout \<Rightarrow> layout" where
  "element_will_render h L =
     L\<lparr>hooks := (hooks L)[h := (hooks L ! h)\<lparr>cursor := 0\<rparr>], trace := trace L @ [WillRender h]\<rparr>"

definition element_did_render :: "ref \<Rightarrow> layout \<Rightarrow> layout" where
  "element_did_render h L = L\<lparr>trace := trace L @ [DidRender h]\<rparr>"

definition element_will_unmount :: "ref \<Rightarrow> layout \<Rightarrow> layout" where
  "element_will_unmount h L = L\<lparr>trace := trace L @ [WillUnmount h]\<rparr>"

subsection \<open>Event handlers of a model\<close>

text \<open>
  The loop of \<^verbatim>\<open>_render_model_event_handlers\<close> over \<^verbatim>\<open>list(attrs.items())\<close>; \<open>at\<close> is
  the attributes dictionary, \<open>hs\<close> the local \<^verbatim>\<open>handlers\<close>.
\<close>

fun lift_attrs :: "host \<Rightarrow> ref \<Rightarrow> (string \<times> val) list \<Rightarrow> dict \<Rightarrow> layout \<Rightarrow> dict result" where
  "lift_attrs P at [] hs L = Return hs L"
| "lift_attrs P at ((k, v) # kvs) hs L =
     (if callable v then
        (if \<not> is_event_handler v then
           (let h = EventHandler (new_handler_id P (next_hid L)) (case v of VFn f \<Rightarrow> [f] | _ \<Rightarrow> []);
                L1 = L\<lparr>next_hid := Suc (next_hid L)\<rparr>
            in if k \<in> fst ` set (dicts L1 ! at)
               then lift_attrs P at kvs (AList.update k (VHandler h) hs)
                      (L1\<lparr>dicts := (dicts L1)[at := AList.delete k (dicts L1 ! at)]\<rparr>)
               else Raise KeyError)
         else
           (if k \<in> fst ` set (dicts L ! at)
            then lift_attrs P at kvs (AList.update k v hs)
                   (L\<lparr>dicts := (dicts L)[at := AList.delete k (dicts L ! at)]\<rparr>)
            else Raise KeyError))
      else lift_attrs P at kvs hs L)"

text \<open>
  Modelled from the spec: \<^verbatim>\<open>EventHandler.serialize\<close>, "minimally \<^verbatim>\<open>{target: id}\<close>".
\<close>

definition serialize :: "event_handler \<Rightarrow> dict" where
  "serialize h = [(''target'', VStr (hid h))]"

fun serialize_all :: "dict \<Rightarrow> layout \<Rightarrow> dict \<times> layout" where
  "serialize_all [] L = ([], L)"
| "serialize_all ((e, v) # hs) L =
     (let (r, L1) = alloc (serialize (the_handler v)) L;
          (rest, L2) = serialize_all hs L1
      in ((e, VRef r) # rest, L2))"

definition handlers_by_id :: "dict \<Rightarrow> (string \<rightharpoonup> event_handler)" where
  "handlers_by_id hs = fold (\<lambda>(e, v) m. m(hid (the_handler v) \<mapsto> the_handler v)) hs Map.empty"

text \<open>
  \<^verbatim>\<open>_render_model_event_handlers(element_state, model)\<close>: \<open>a\<close> is the ElementState
  object, \<open>m\<close> the model dictionary (the copy that \<^verbatim>\<open>_render_model\<close> made).
\<close>

definition render_model_event_handlers :: "host \<Rightarrow> ref \<Rightarrow> ref \<Rightarrow> layout \<Rightarrow> val result" where
  "render_model_event_handlers P a m L =
     and_then
       (case map_of (dicts L ! m) ''eventHandlers'' of
          None \<Rightarrow> Return [] L
        | Some (VRef r) \<Rightarrow>
            if r < length (dicts L)
            then Return (fold (\<lambda>(k, v). AList.update k v) (dicts L ! r) []) L
            else Raise TypeError
        | Some _ \<Rightarrow> Raise TypeError)
       (\<lambda>hs0 L0.
     and_then
       (case map_of (dicts L0 ! m) ''attributes'' of
          None \<Rightarrow> Return hs0 L0
        | Some (VRef at) \<Rightarrow>
            if at < length (dicts L0)
            then lift_attrs P at (dicts L0 ! at) hs0 L0
            else Raise AttributeError
        | Some _ \<Rightarrow> Raise AttributeError)
       (\<lambda>hs L1.
          if \<forall>v \<in> snd ` set hs. is_event_handler v then
            (let by_id = handlers_by_id hs;
                 L2 = L1\<lparr>objs := (objs L1)[a := (objs L1 ! a)\<lparr>event_handler_ids := dom by_id\<rparr>]\<rparr>;
                 L3 = L2\<lparr>event_handlers := event_handlers L2 ++ by_id\<rparr>;
                 (ser, L4) = serialize_all hs L3;
                 (r, L5) = alloc ser L4
             in Return (VRef r) L5)
          else Raise AttributeError))"






text \<open>The keys of the callable items, and the serialized items as \<open>serialize_all\<close> numbers them.\<close>

definition callable_keys :: "dict \<Rightarrow> string set" where
  "callable_keys kvs = set (map fst (filter (\<lambda>q. callable (snd q)) kvs))"

definition descriptors :: "nat \<Rightarrow> dict \<Rightarrow> dict" where
  "descriptors n hs = map (\<lambda>(i, p). (fst p, VRef i)) (enumerate n hs)"

subsection \<open>Unmounting\<close>

text \<open>
  \<^verbatim>\<open>_clear_element_state_event_handlers\<close>: \<^verbatim>\<open>del self._event_handlers[handler_id]\<close>
  raises KeyError at an id that is not registered.
\<close>

definition clear_element_state_event_handlers :: "ref \<Rightarrow> layout \<Rightarrow> unit result" where
  "clear_element_state_event_handlers a L =
     (let ids = event_handler_ids (objs L ! a) in
      if \<forall>i \<in> ids. i \<in> dom (event_handlers L)
      then Return ()
             (L\<lparr>event_handlers := event_handlers L |` (- ids),
                objs := (objs L)[a := (objs L ! a)\<lparr>event_handler_ids := {}\<rparr>]\<rparr>)
      else Raise KeyError)"

text \<open>
  \<^verbatim>\<open>_unmount_element_state\<close>, \<^verbatim>\<open>_unmount_element_state_children\<close> and the loop of the
  latter over the child ids. The recursion follows the ids through the table of element
  states and need not end (a state that is its own descendant), so it is given a number
  of nested calls.
\<close>

fun unmount_element_state :: "host \<Rightarrow> nat \<Rightarrow> ref \<Rightarrow> layout \<Rightarrow> unit result"
  and unmount_element_state_children :: "host \<Rightarrow> nat \<Rightarrow> ref \<Rightarrow> layout \<Rightarrow> unit result"
  and unmount_each :: "host \<Rightarrow> nat \<Rightarrow> string list \<Rightarrow> layout \<Rightarrow> unit result"
where
  "unmount_element_state P 0 a L = OutOfFuel"
| "unmount_element_state P (Suc n) a L =
     and_then (Return () (element_will_unmount (life_cycle_hook (objs L ! a)) L)) (\<lambda>u L1.
     and_then (clear_element_state_event_handlers a L1) (\<lambda>u L2.
     and_then (unmount_element_state_children P n a L2) (\<lambda>u L3.
       let k = elem_id P (element_obj (objs L3 ! a)) in
       if k \<in> dom (element_states L3)
       then Return () (L3\<lparr>element_states := (element_states L3)(k := None)\<rparr>)
       else Raise KeyError)))"
| "unmount_element_state_children P n a L =
     and_then (unmount_each P n (child_elements_ids (objs L ! a)) L) (\<lambda>u L1.
       Return () (L1\<lparr>objs := (objs L1)[a := (objs L1 ! a)\<lparr>child_elements_ids := []\<rparr>]\<rparr>))"
| "unmount_each P n [] L = Return () L"
| "unmount_each P n (c # cs) L =
     (case element_states L c of
        None \<Rightarrow> Raise KeyError
      | Some b \<Rightarrow> and_then (unmount_element_state P n b L) (\<lambda>u L1. unmount_each P n cs L1))"

subsection \<open>Driving an element's render\<close>

text \<open>
  \<^verbatim>\<open>next(gen)\<close>: the element's code runs from the state \<open>s\<close> of its coroutine to its next
  suspension, against the hook that is current (the top of the hook-runtime stack).
\<close>

definition next_gen :: "host \<Rightarrow> elem \<Rightarrow> nat \<Rightarrow> layout \<Rightarrow> gstep \<times> layout" where
  "next_gen P e s L =
     (case hook_stack L of
        [] \<Rightarrow> (fst (elem_render P e s \<lparr>hook_element = e, cursor = 0, cells = []\<rparr>), L)
      | h # hs \<Rightarrow>
          (let (g, hk) = elem_render P e s (hooks L ! h)
           in (g, L\<lparr>hooks := (hooks L)[h := hk]\<rparr>)))"

text \<open>
  \<^verbatim>\<open>_render_with_life_cycle_hook\<close> is a generator. What one resumption of it does, up to
  the point where it suspends again or ends: \<open>CoYield y s\<close> is the generator suspended at
  \<^verbatim>\<open>yield next(gen)\<close>, inside the \<^verbatim>\<open>try\<close> block, having passed \<open>y\<close> on, with the
  element's coroutine in state \<open>s\<close>.
\<close>

datatype co_result = CoYield val nat | CoReturn val | CoRaise exn

text \<open>
  One pass through the body of \<^verbatim>\<open>while True\<close>, from \<^verbatim>\<open>set_current()\<close> on. When
  \<^verbatim>\<open>next(gen)\<close> yields, the generator suspends at the \<^verbatim>\<open>yield\<close> and the \<^verbatim>\<open>finally\<close>
  block has not run; when it raises (StopIteration, which carries the return value, or a
  failure) the \<^verbatim>\<open>finally\<close> block runs on the way out.
\<close>

definition loop_body :: "host \<Rightarrow> ref \<Rightarrow> nat \<Rightarrow> layout \<Rightarrow> co_result \<times> layout" where
  "loop_body P a s L =
     (let h = life_cycle_hook (objs L ! a);
          L1 = set_current h L;
          (g, L2) = next_gen P (element_obj (objs L1 ! a)) s L1
      in case g of
           GYield y s' \<Rightarrow> (CoYield y s', L2)
         | GReturn v \<Rightarrow> (CoReturn v, unset_current h L2)
         | GRaise e \<Rightarrow> (CoRaise e, unset_current h L2))"

text \<open>The first \<^verbatim>\<open>next\<close> on the generator: \<^verbatim>\<open>gen\<close> is created and the loop is entered.\<close>

definition co_start :: "host \<Rightarrow> ref \<Rightarrow> layout \<Rightarrow> co_result \<times> layout" where
  "co_start P a L = loop_body P a 0 L"

text \<open>
  The generator is resumed at the \<^verbatim>\<open>yield\<close>: the \<^verbatim>\<open>try\<close> block ends, the \<^verbatim>\<open>finally\<close>
  block runs, and the loop goes round.
\<close>

definition co_resume :: "host \<Rightarrow> ref \<Rightarrow> nat \<Rightarrow> layout \<Rightarrow> co_result \<times> layout" where
  "co_resume P a s L = loop_body P a s (unset_current (life_cycle_hook (objs L ! a)) L)"

text \<open>
  An exception is thrown into the generator at the \<^verbatim>\<open>yield\<close> (a cancellation): the
  \<^verbatim>\<open>finally\<close> block runs and the exception goes on.
\<close>

definition co_throw :: "ref \<Rightarrow> exn \<Rightarrow> layout \<Rightarrow> co_result \<times> layout" where
  "co_throw a e L = (CoRaise e, unset_current (life_cycle_hook (objs L ! a)) L)"

text \<open>
  \<^verbatim>\<open>await _render_with_life_cycle_hook(element_state)\<close> with no other task of the event
  loop touching the Layout in between: the generator is resumed after each suspension
  until it ends. \<open>n\<close> bounds the number of suspensions.
\<close>

fun drive :: "host \<Rightarrow> nat \<Rightarrow> ref \<Rightarrow> co_result \<times> layout \<Rightarrow> val result" where
  "drive P n a (CoReturn v, L) = Return v L"
| "drive P n a (CoRaise e, L) = Raise e"
| "drive P 0 a (CoYield y s, L) = OutOfFuel"
| "drive P (Suc n) a (CoYield y s, L) = drive P n a (co_resume P a s L)"

definition render_with_life_cycle_hook :: "host \<Rightarrow> nat \<Rightarrow> ref \<Rightarrow> layout \<Rightarrow> val result" where
  "render_with_life_cycle_hook P n a L = drive P n a (co_start P a L)"

subsection \<open>Rendering\<close>

text \<open>
  \<^verbatim>\<open>_create_element_state\<close> followed by the store into \<^verbatim>\<open>self._element_states\<close>: the new
  ElementState object, with its new model dictionary and its new LifeCycleHook.
\<close>

definition create_element_state :: "elem \<Rightarrow> layout \<Rightarrow> ref \<times> layout" where
  "create_element_state e L =
     (let (m, L1) = alloc [] L;
          h = length (hooks L1);
          L2 = L1\<lparr>hooks := hooks L1 @ [\<lparr>hook_element = e, cursor = 0, cells = []\<rparr>]\<rparr>;
          st = \<lparr>model = m, element_obj = e, event_handler_ids = {}, child_elements_ids = [],
                 life_cycle_hook = h\<rparr>
      in (length (objs L2), L2\<lparr>objs := objs L2 @ [st]\<rparr>))"

definition is_element :: "val \<Rightarrow> bool" where
  "is_element v = (case v of VElem e \<Rightarrow> True | _ \<Rightarrow> False)"

definition children_list :: "val \<Rightarrow> val list" where
  "children_list v = (case v of VList xs \<Rightarrow> xs | VTuple xs \<Rightarrow> xs | _ \<Rightarrow> [v])"

text \<open>
  \<^verbatim>\<open>_render_element\<close>, \<^verbatim>\<open>_render_model\<close> and the loop of \<^verbatim>\<open>_render_model_children\<close>
  (\<open>acc\<close> is \<^verbatim>\<open>resolved_children\<close>), with no other task of the event loop running in
  between. An element may render a new element for ever, so the recursion is given a
  number of nested calls.
\<close>

fun render_element :: "host \<Rightarrow> nat \<Rightarrow> elem \<Rightarrow> layout \<Rightarrow> val result"
  and render_model :: "host \<Rightarrow> nat \<Rightarrow> ref \<Rightarrow> val \<Rightarrow> layout \<Rightarrow> val result"
  and render_model_children ::
    "host \<Rightarrow> nat \<Rightarrow> ref \<Rightarrow> val list \<Rightarrow> val list \<Rightarrow> layout \<Rightarrow> val result"
where
  "render_element P 0 e L = OutOfFuel"
| "render_element P (Suc n) e L =
     (let k = elem_id P e;
          L1 = (if k \<notin> dom (element_states L)
                then (let (a, L') = create_element_state e L
                      in L'\<lparr>element_states := (element_states L')(k \<mapsto> a)\<rparr>)
                else L);
          a = the (element_states L1 k);
          h = life_cycle_hook (objs L1 ! a)
      in
     and_then (Return () (element_will_render h L1)) (\<lambda>u L2.
     and_then (clear_element_state_event_handlers a L2) (\<lambda>u L3.
     and_then (unmount_element_state_children P n a L3) (\<lambda>u L4.
     and_then (render_with_life_cycle_hook P n a L4) (\<lambda>raw L5.
     and_then (if is_element raw
               then (let (r, L') = alloc [(''tagName'', VStr ''div''), (''children'', VList [raw])] L5
                     in Return (VRef r) L')
               else Return raw L5) (\<lambda>raw_model L6.
     and_then (render_model P n a raw_model L6) (\<lambda>resolved L7.
       (case resolved of
          VRef r \<Rightarrow>
            (let m = model (objs L7 ! a);
                 L8 = L7\<lparr>dicts := (dicts L7)[m := []]\<rparr>;
                 L9 = L8\<lparr>dicts := (dicts L8)[m := fold (\<lambda>(k, v). AList.update k v) (dicts L8 ! r) (dicts L8 ! m)]\<rparr>
             in Return (VRef m) (element_did_render h L9))
        | _ \<Rightarrow> Raise TypeError))))))))"
| "render_model P 0 a mv L = OutOfFuel"
| "render_model P (Suc n) a mv L =
     (case mv of
        VRef src \<Rightarrow>
          if src < length (dicts L) then
            (let (m, L1) = alloc (dicts L ! src) L in
             and_then (render_model_event_handlers P a m L1) (\<lambda>ehs L2.
             and_then (Return () (L2\<lparr>dicts := (dicts L2)[m := AList.update ''eventHandlers'' ehs (dicts L2 ! m)]\<rparr>)) (\<lambda>u L3.
               (case map_of (dicts L3 ! m) ''children'' of
                  None \<Rightarrow> Return (VRef m) L3
                | Some cs \<Rightarrow>
                    and_then (render_model_children P n a (children_list cs) [] L3) (\<lambda>rcs L4.
                      Return (VRef m)
                        (L4\<lparr>dicts := (dicts L4)[m := AList.update ''children'' rcs (dicts L4 ! m)]\<rparr>))))))
          else Raise TypeError
      | _ \<Rightarrow> Raise TypeError)"
| "render_model_children P n a [] acc L = Return (VList acc) L"
| "render_model_children P n a (child # rest) acc L =
     (case child of
        VRef r \<Rightarrow>
          and_then (render_model P n a child L) (\<lambda>v L1.
            render_model_children P n a rest (acc @ [v]) L1)
      | VElem c \<Rightarrow>
          and_then (Return ()
              (L\<lparr>objs := (objs L)[a := (objs L ! a)\<lparr>child_elements_ids :=
                    child_elements_ids (objs L ! a) @ [elem_id P c]\<rparr>]\<rparr>)) (\<lambda>u L1.
          and_then (render_element P n c L1) (\<lambda>v L2.
            render_model_children P n a rest (acc @ [v]) L2))
      | _ \<Rightarrow> render_model_children P n a rest (acc @ [VStr (str_of P child)]) L)"

subsection \<open>Construction and the public operations\<close>

text \<open>
  \<^verbatim>\<open>Layout.__init__\<close>, with the dictionaries the host has built so far, and the two
  resources \<^verbatim>\<open>_rendering_queue\<close> and \<^verbatim>\<open>_element_states\<close> as they are on entry.
\<close>

definition new_layout :: "elem \<Rightarrow> dict list \<Rightarrow> layout" where
  "new_layout r ds =
     \<lparr>root = r, dicts = ds, objs = [], hooks = [], element_states = Map.empty,
      event_handlers = Map.empty, rendering_queue = fq_init, next_hid = 0,
      hook_stack = [], trace = []\<rparr>"

definition open_rendering_queue :: "layout \<Rightarrow> layout" where
  "open_rendering_queue L = L\<lparr>rendering_queue := fq_put (root L) fq_init\<rparr>"

definition open_element_states :: "host \<Rightarrow> layout \<Rightarrow> layout" where
  "open_element_states P L =
     (let (a, L1) = create_element_state (root L) L
      in L1\<lparr>element_states := [elem_id P (root L) \<mapsto> a]\<rparr>)"

definition enter_layout :: "host \<Rightarrow> layout \<Rightarrow> layout" where
  "enter_layout P L = open_element_states P (open_rendering_queue L)"

record layout_event =
  target :: string
  data :: "val list"

text \<open>
  Modelled from the spec: calling an \<^verbatim>\<open>EventHandler\<close>, "awaits each callback in order
  with \<^verbatim>\<open>data\<close>". A callback that raises ends the call. Every call of a callback is
  recorded in the trace.
\<close>

fun invoke :: "host \<Rightarrow> fn list \<Rightarrow> val list \<Rightarrow> layout \<Rightarrow> unit result" where
  "invoke P [] d L = Return () L"
| "invoke P (f # fs) d L =
     (case fn_call P f d of
        Some e \<Rightarrow> Raise e
      | None \<Rightarrow> invoke P fs d (L\<lparr>trace := trace L @ [Called f d]\<rparr>))"

definition trigger :: "host \<Rightarrow> layout_event \<Rightarrow> layout \<Rightarrow> unit result" where
  "trigger P ev L =
     (case event_handlers L (target ev) of
        None \<Rightarrow> Return () L
      | Some handler \<Rightarrow> invoke P (callbacks handler) (data ev) L)"

definition update :: "elem \<Rightarrow> layout \<Rightarrow> layout" where
  "update e L = L\<lparr>rendering_queue := fq_put e (rendering_queue L)\<rparr>"

text \<open>
  \<^verbatim>\<open>render\<close>: \<open>None\<close> while \<^verbatim>\<open>self._rendering_queue.get()\<close> is suspended. Otherwise the
  outcome (\<open>Inl\<close> what it raises) and the state it leaves.
\<close>

definition render :: "host \<Rightarrow> layout \<Rightarrow> ((exn + val) \<times> layout) option" where
  "render P L =
     (case fq_get (rendering_queue L) of
        None \<Rightarrow> None
      | Some ((i, out), q) \<Rightarrow>
          Some (case out of
                  Inl e \<Rightarrow> (Inl e, L\<lparr>rendering_queue := q\<rparr>)
                | Inr v \<Rightarrow>
                    (case element_states L (elem_id P (root L)) of
                       None \<Rightarrow> (Inl KeyError, L\<lparr>rendering_queue := q\<rparr>)
                     | Some a \<Rightarrow> (Inr (VRef (model (objs L ! a))), L\<lparr>rendering_queue := q\<rparr>))))"

text \<open>
  The event loop runs the pending future \<open>i\<close> of the rendering queue, a
  \<^verbatim>\<open>_render_element\<close> coroutine, to its end, and \<^verbatim>\<open>wrapper\<close> passes it on to the done
  channel.
\<close>

definition run_task :: "host \<Rightarrow> nat \<Rightarrow> nat \<Rightarrow> layout \<Rightarrow> unit result" where
  "run_task P n i L =
     (case map_of (fq_pending (rendering_queue L)) i of
        None \<Rightarrow> Raise KeyError
      | Some e \<Rightarrow>
          and_then (render_element P n e L) (\<lambda>v L1.
            (case fq_finish i (Inr v) (rendering_queue L1) of
               None \<Rightarrow> Raise KeyError
             | Some q \<Rightarrow> Return () (L1\<lparr>rendering_queue := q\<rparr>))))"

text \<open>The handler ids that the mounted element states hold.\<close>

definition owned_handler_ids :: "layout \<Rightarrow> string set" where
  "owned_handler_ids L = (\<Union>a \<in> ran (element_states L). event_handler_ids (objs L ! a))"

subsection \<open>What a step keeps\<close>

text \<open>
  What can happen to a LifeCycleHook object: \<^verbatim>\<open>element_will_render\<close> resets its cursor,
  and the code of an element, run while the hook is current, leaves it as it likes.
\<close>

inductive hook_steps :: "host \<Rightarrow> hook \<Rightarrow> hook \<Rightarrow> bool" for P :: host where
  hook_same: "hook_steps P hk hk"
| hook_reset: "hook_steps P hk hk' \<Longrightarrow> hook_steps P hk (hk'\<lparr>cursor := 0\<rparr>)"
| hook_user: "hook_steps P hk hk' \<Longrightarrow> hook_steps P hk (snd (elem_render P e s hk'))"

text \<open>
  \<open>ext P L L'\<close>: the Layout \<open>L'\<close> extends \<open>L\<close>. The root and the rendering queue are the
  same; no dictionary, ElementState or hook has gone; the fields \<^verbatim>\<open>model\<close>, \<^verbatim>\<open>element_obj\<close>
  and \<^verbatim>\<open>life_cycle_hook\<close> of an ElementState that was there are the same (ElementState is
  a NamedTuple); an entry of the table of element states is an entry that was there or a
  new ElementState; the trace has only grown; a hook that was there has only been reset or
  left as the elements' code left it.
\<close>

definition ext :: "host \<Rightarrow> layout \<Rightarrow> layout \<Rightarrow> bool" where
  "ext P L L' =
     (root L' = root L \<and>
      rendering_queue L' = rendering_queue L \<and>
      length (dicts L) \<le> length (dicts L') \<and>
      length (objs L) \<le> length (objs L') \<and>
      length (hooks L) \<le> length (hooks L') \<and>
      (\<forall>b < length (objs L).
         model (objs L' ! b) = model (objs L ! b) \<and>
         element_obj (objs L' ! b) = element_obj (objs L ! b) \<and>
         life_cycle_hook (objs L' ! b) = life_cycle_hook (objs L ! b)) \<and>
      (\<forall>k b. element_states L' k = Some b \<longrightarrow>
         element_states L k = Some b \<or> length (objs L) \<le> b) \<and>
      (\<exists>tr. trace L' = trace L @ tr) \<and>
      (\<forall>h < length (hooks L). hook_steps P (hooks L ! h) (hooks L' ! h)))"

text \<open>
  \<open>unm L L'\<close>: what unmounting changes at most. Entries of the two tables have gone, sets
  of handler ids and lists of child ids have changed, \<^verbatim>\<open>element_will_unmount\<close> has been
  called.
\<close>

definition unm :: "layout \<Rightarrow> layout \<Rightarrow> bool" where
  "unm L L' =
     (root L' = root L \<and> rendering_queue L' = rendering_queue L \<and>
      dicts L' = dicts L \<and> hooks L' = hooks L \<and> next_hid L' = next_hid L \<and>
      hook_stack L' = hook_stack L \<and>
      length (objs L') = length (objs L) \<and>
      (\<forall>b. model (objs L' ! b) = model (objs L ! b) \<and>
           element_obj (objs L' ! b) = element_obj (objs L ! b) \<and>
           life_cycle_hook (objs L' ! b) = life_cycle_hook (objs L ! b)) \<and>
      (\<forall>k. element_states L' k = element_states L k \<or> element_states L' k = None) \<and>
      (\<forall>i. event_handlers L' i = event_handlers L i \<or> event_handlers L' i = None) \<and>
      (\<exists>tr. trace L' = trace L @ tr \<and> (\<forall>ev \<in> set tr. \<exists>h. ev = WillUnmount h)))"

text \<open>The event \<open>ev\<close> was recorded on the way from \<open>L\<close> to \<open>L'\<close>.\<close>

definition fired :: "layout \<Rightarrow> layout \<Rightarrow> event \<Rightarrow> bool" where
  "fired L L' ev = (\<exists>t1 t2. trace L' = trace L @ t1 @ ev # t2)"

text \<open>
  On the way from \<open>L\<close> to \<open>L'\<close> the ElementState \<open>b\<close> was unmounted:
  \<^verbatim>\<open>element_will_unmount\<close> of its hook was called and its element's id has no entry.
\<close>

definition unmounted :: "host \<Rightarrow> ref \<Rightarrow> layout \<Rightarrow> layout \<Rightarrow> bool" where
  "unmounted P b L L' =
     (element_states L' (elem_id P (element_obj (objs L ! b))) = None \<and>
      fired L L' (WillUnmount (life_cycle_hook (objs L ! b))))"

text \<open>
  Parts of \<^verbatim>\<open>_render_element\<close> and \<^verbatim>\<open>_render_model\<close> by name: the Layout after the first
  statement of \<^verbatim>\<open>_render_element\<close> (the ElementState is created if the id has none);
  \<^verbatim>\<open>element_state.model.clear()\<close> followed by \<^verbatim>\<open>element_state.model.update(resolved_model)\<close>,
  \<open>m\<close> the state's model and \<open>r\<close> the resolved one; \<^verbatim>\<open>model[k] = v\<close>.
\<close>

definition mounted :: "host \<Rightarrow> elem \<Rightarrow> layout \<Rightarrow> layout" where
  "mounted P e L =
     (if elem_id P e \<notin> dom (element_states L)
      then (case create_element_state e L of
              (a, L') \<Rightarrow> L'\<lparr>element_states := (element_states L')(elem_id P e \<mapsto> a)\<rparr>)
      else L)"

definition model_replaced :: "ref \<Rightarrow> ref \<Rightarrow> layout \<Rightarrow> layout" where
  "model_replaced m r L =
     L\<lparr>dicts := (dicts L)[m := []]\<rparr>
      \<lparr>dicts := (dicts (L\<lparr>dicts := (dicts L)[m := []]\<rparr>))
         [m := fold (\<lambda>(k, v). AList.update k v) (dicts (L\<lparr>dicts := (dicts L)[m := []]\<rparr>) ! r)
                 (dicts (L\<lparr>dicts := (dicts L)[m := []]\<rparr>) ! m)]\<rparr>"

definition item_set :: "ref \<Rightarrow> string \<Rightarrow> val \<Rightarrow> layout \<Rightarrow> layout" where
  "item_set m k v L = L\<lparr>dicts := (dicts L)[m := AList.update k v (dicts L ! m)]\<rparr>"

subsection \<open>Example hosts\<close>

text \<open>
  A root element whose render returns the model \<^verbatim>\<open>{"tagName": "div", "attributes":
  {"onClick": f0}, "children": [{"tagName": "span", "attributes": {"onClick": f1}}]}\<close>;
  the four dictionaries are the host's.
\<close>

definition nested_host :: host where
  "nested_host =
     \<lparr>elem_id = (\<lambda>e. if e = 0 then ''root'' else ''child''),
      elem_render = (\<lambda>e s hk. (GReturn (VRef 0), hk)),
      fn_call = (\<lambda>f d. None),
      new_handler_id = (\<lambda>n. CHR ''h'' # replicate n (CHR ''+'')),
      str_of = (\<lambda>v. case v of VStr s \<Rightarrow> s | _ \<Rightarrow> ''?'')\<rparr>"

definition nested_dicts :: "dict list" where
  "nested_dicts =
     [[(''tagName'', VStr ''div''), (''attributes'', VRef 1), (''children'', VList [VRef 2])],
      [(''onClick'', VFn 0)],
      [(''tagName'', VStr ''span''), (''attributes'', VRef 3)],
      [(''onClick'', VFn 1)]]"

text \<open>An element whose render awaits once (it yields to the event loop) and then returns.\<close>

definition awaiting_host :: host where
  "awaiting_host =
     \<lparr>elem_id = (\<lambda>e. ''root''),
      elem_render = (\<lambda>e s hk. (if s = 0 then GYield VNone 1 else GReturn (VRef 0), hk)),
      fn_call = (\<lambda>f d. None),
      new_handler_id = (\<lambda>n. CHR ''h'' # replicate n (CHR ''+'')),
      str_of = (\<lambda>v. case v of VStr s \<Rightarrow> s | _ \<Rightarrow> ''?'')\<rparr>"




subsection \<open>Runs of a FutureQueue\<close>

text \<open>
  What can happen to a queue: a task is put, a pending future reaches a terminal state with
  some outcome (success, failure or cancellation), a caller calls \<^verbatim>\<open>get\<close>. The calls of
  \<^verbatim>\<open>get\<close> are numbered in the order they are made. A call that finds the done channel
  empty stays suspended in \<^verbatim>\<open>await self._done.get()\<close>: it joins the callers that wait, the
  oldest first. When a future is put on the done channel, the channel wakes the caller that
  has waited longest, and this caller goes on with its \<^verbatim>\<open>get\<close>. The state of a run holds
  the queue, the suspended callers, what the calls of \<^verbatim>\<open>get\<close> have delivered so far (the
  caller with the future and its outcome) and the number of calls made.
\<close>

datatype ('t, 'r) fq_op = Put 't | Finish nat "exn + 'r" | Get

record ('t, 'r) fq_run_state =
  run_queue :: "('t, 'r) future_queue"
  run_waiting :: "nat list"
  run_delivered :: "(nat \<times> nat \<times> (exn + 'r)) list"
  run_calls :: nat

definition fq_start :: "('t, 'r) fq_run_state" where
  "fq_start = \<lparr>run_queue = fq_init, run_waiting = [], run_delivered = [], run_calls = 0\<rparr>"

definition get_call :: "nat \<Rightarrow> ('t, 'r) fq_run_state \<Rightarrow> ('t, 'r) fq_run_state" where
  "get_call c s =
     (case fq_get (run_queue s) of
        None \<Rightarrow> s\<lparr>run_waiting := run_waiting s @ [c]\<rparr>
      | Some (d, q') \<Rightarrow> s\<lparr>run_queue := q', run_delivered := run_delivered s @ [(c, d)]\<rparr>)"

fun fq_step :: "('t, 'r) fq_op \<Rightarrow> ('t, 'r) fq_run_state \<Rightarrow> ('t, 'r) fq_run_state" where
  "fq_step (Put t) s = s\<lparr>run_queue := fq_put t (run_queue s)\<rparr>"
| "fq_step (Finish i out) s =
     (case fq_finish i out (run_queue s) of
        None \<Rightarrow> s
      | Some q' \<Rightarrow>
          (case run_waiting s of
             [] \<Rightarrow> s\<lparr>run_queue := q'\<rparr>
           | c # cs \<Rightarrow> get_call c (s\<lparr>run_queue := q', run_waiting := cs\<rparr>)))"
| "fq_step Get s = get_call (run_calls s) (s\<lparr>run_calls := Suc (run_calls s)\<rparr>)"

definition fq_run :: "('t, 'r) fq_op list \<Rightarrow> ('t, 'r) fq_run_state" where
  "fq_run ops = foldl (\<lambda>s op. fq_step op s) fq_start ops"

text \<open>
  What the tasks of a run did, read off the run alone: the number of tasks put, the number
  of calls of \<^verbatim>\<open>get\<close>, and the terminal states reached, in the order they were reached (a
  future reaches a terminal state once, and only a future that was put does).
\<close>

definition nputs :: "('t, 'r) fq_op list \<Rightarrow> nat" where
  "nputs ops = length (filter (\<lambda>op. case op of Put t \<Rightarrow> True | _ \<Rightarrow> False) ops)"

definition ngets :: "('t, 'r) fq_op list \<Rightarrow> nat" where
  "ngets ops = length (filter (\<lambda>op. case op of Get \<Rightarrow> True | _ \<Rightarrow> False) ops)"

fun note_completion ::
  "nat \<times> (nat \<times> (exn + 'r)) list \<Rightarrow> ('t, 'r) fq_op \<Rightarrow> nat \<times> (nat \<times> (exn + 'r)) list" where
  "note_completion (n, fin) (Put t) = (Suc n, fin)"
| "note_completion (n, fin) (Finish i out) =
     (if i < n \<and> i \<notin> fst ` set fin then (n, fin @ [(i, out)]) else (n, fin))"
| "note_completion (n, fin) Get = (n, fin)"

definition completions :: "('t, 'r) fq_op list \<Rightarrow> (nat \<times> (exn + 'r)) list" where
  "completions ops = snd (foldl note_completion (0, []) ops)"

text \<open>
  What holds of the state of every run: the pending futures are the tasks put that have
  not reached a terminal state; deliveries and the done channel together are the terminal
  states reached, in order; every call of \<^verbatim>\<open>get\<close> has been delivered to or waits; no
  caller waits while the done channel holds a future.
\<close>

definition fq_inv :: "('t, 'r) fq_op list \<Rightarrow> ('t, 'r) fq_run_state \<Rightarrow> bool" where
  "fq_inv ops s =
     (fst ` set (fq_pending (run_queue s)) = {i. i < nputs ops} - fst ` set (completions ops) \<and>
      fq_next (run_queue s) = nputs ops \<and>
      map snd (run_delivered s) @ fq_done (run_queue s) = completions ops \<and>
      map fst (run_delivered s) @ run_waiting s = [0..<ngets ops] \<and>
      run_calls s = ngets ops \<and>
      (run_waiting s = [] \<or> fq_done (run_queue s) = []))"

text \<open>A host whose callable 1 raises, and a Layout with two registered handlers.\<close>

definition failing_host :: host where
  "failing_host =
     \<lparr>elem_id = (\<lambda>e. ''root''),
      elem_render = (\<lambda>e s hk. (GReturn (VRef 0), hk)),
      fn_call = (\<lambda>f d. if f = 1 then Some (HostError ''boom'') else None),
      new_handler_id = (\<lambda>n. CHR ''h'' # replicate n (CHR ''+'')),
      str_of = (\<lambda>v. case v of VStr s \<Rightarrow> s | _ \<Rightarrow> ''?'')\<rparr>"

definition handler_layout :: layout where
  "handler_layout =
     (new_layout 0 [])\<lparr>event_handlers :=
        [''h'' \<mapsto> EventHandler ''h'' [0, 1], ''g'' \<mapsto> EventHandler ''g'' [0]]\<rparr>"

section \<open>Properties\<close>

lemmas eval_defs =
  new_layout_def enter_layout_def open_rendering_queue_def open_element_states_def
  create_element_state_def alloc_def fq_put_def fq_init_def
  and_then_def element_will_render_def element_did_render_def element_will_unmount_def
  clear_element_state_event_handlers_def render_with_life_cycle_hook_def co_start_def
  co_resume_def loop_body_def next_gen_def set_current_def unset_current_def is_element_def
  children_list_def render_model_event_handlers_def callable_def is_event_handler_def
  the_handler_def handlers_by_id_def serialize_def Let_def

subsection \<open>The handler table and the ids the element states hold\<close>

text \<open>
  Claim C1: between public operations, the keys of the Layout's table of event handlers
  are the disjoint union of the \<^verbatim>\<open>event_handler_ids\<close> of the mounted element states, also
  after rendering a model with nested child dictionaries that carry handlers at more than
  one level. The code does not keep this: \<^verbatim>\<open>_render_model_event_handlers\<close> clears the
  state's set at every dictionary of the model, so only the ids of the dictionary resolved
  last are held. For the root model of \<open>nested_host\<close> the outer handler \<^verbatim>\<open>h\<close> is
  registered in the table after the first render, and no mounted state holds its id.
\<close>

theorem nested_handlers_orphaned:
  "(case render_element nested_host (Suc (Suc (Suc (Suc 0)))) 0
           (enter_layout nested_host (new_layout 0 nested_dicts)) of
      Return v L' \<Rightarrow>
        ''h'' \<in> dom (event_handlers L') \<and> ''h'' \<notin> owned_handler_ids L'
    | _ \<Rightarrow> False)"
  by (simp add: nested_host_def nested_dicts_def eval_defs owned_handler_ids_def)

theorem nested_handlers_orphaned_witness:
  "\<exists>v L'. render_element nested_host (Suc (Suc (Suc (Suc 0)))) 0
             (enter_layout nested_host (new_layout 0 nested_dicts)) = Return v L'
         \<and> dom (event_handlers L') \<noteq> owned_handler_ids L'"
  using nested_handlers_orphaned by (auto split: result.splits)

subsection \<open>The hook runtime while a render is suspended\<close>

text \<open>
  Claim C7: the element's hook is pushed before every resumption of the render generator
  and popped on every yield-out and on every exception, so that it is not current while
  the render is suspended. In the code the \<^verbatim>\<open>yield\<close> stands inside the \<^verbatim>\<open>try\<close> block, so
  the \<^verbatim>\<open>finally\<close> block does not run when the generator yields out: whenever a pass
  through the loop ends in a suspension, the hook is still on top of the hook-runtime
  stack and \<^verbatim>\<open>unset_current\<close> has not been called since \<^verbatim>\<open>set_current\<close>.
\<close>

theorem loop_body_suspends_with_hook_current:
  assumes "loop_body P a s L = (CoYield y s', L')"
  shows "hook_stack L' = life_cycle_hook (objs L ! a) # hook_stack L
       \<and> trace L' = trace L @ [SetCurrent (life_cycle_hook (objs L ! a))]"
  using assms
  by (auto simp: loop_body_def next_gen_def set_current_def unset_current_def Let_def
      split: prod.splits gstep.splits list.splits)

theorem loop_body_suspends_with_hook_current_witness:
  "fst (co_start awaiting_host 0
         (enter_layout awaiting_host (new_layout 0 [[(''tagName'', VStr ''div'')]])))
     = CoYield VNone 1
   \<and> hook_stack (snd (co_start awaiting_host 0
        (enter_layout awaiting_host (new_layout 0 [[(''tagName'', VStr ''div'')]])))) = [0]"
  using loop_body_suspends_with_hook_current
    [of awaiting_host 0 0
        "enter_layout awaiting_host (new_layout 0 [[(''tagName'', VStr ''div'')]])"
        VNone 1
        "snd (co_start awaiting_host 0
           (enter_layout awaiting_host (new_layout 0 [[(''tagName'', VStr ''div'')]])))"]
  by (simp add: awaiting_host_def eval_defs)

subsection \<open>Callable attributes become event handlers\<close>

lemma callable_keys_Nil [simp]: "callable_keys [] = {}"
  by (simp add: callable_keys_def)




















lemma serialize_all_eq:
  "serialize_all hs L =
     (descriptors (length (dicts L)) hs,
      L\<lparr>dicts := dicts L @ map (\<lambda>p. serialize (the_handler (snd p))) hs\<rparr>)"
proof (induction hs arbitrary: L)
  case Nil
  show ?case by (simp add: descriptors_def)
next
  case (Cons p hs)
  obtain e v where p: "p = (e, v)" by (cases p)
  define L1 where "L1 = L\<lparr>dicts := dicts L @ [serialize (the_handler v)]\<rparr>"
  have a: "alloc (serialize (the_handler v)) L = (length (dicts L), L1)"
    by (simp add: alloc_def L1_def)
  have l1: "length (dicts L1) = Suc (length (dicts L))" by (simp add: L1_def)
  have "serialize_all ((e, v) # hs) L =
          ((e, VRef (length (dicts L))) # descriptors (Suc (length (dicts L))) hs,
           L1\<lparr>dicts := dicts L1 @ map (\<lambda>p. serialize (the_handler (snd p))) hs\<rparr>)"
    by (simp add: a Cons.IH [of L1] l1)
  then show ?case unfolding p by (simp add: descriptors_def L1_def)
qed









subsection \<open>What rendering and unmounting keep\<close>

lemma hook_steps_trans:
  "hook_steps P b c \<Longrightarrow> hook_steps P a b \<Longrightarrow> hook_steps P a c"
  by (induction rule: hook_steps.induct) (auto intro: hook_steps.intros)

lemma extI:
  assumes "root L' = root L"
    and "rendering_queue L' = rendering_queue L"
    and "length (dicts L) \<le> length (dicts L')"
    and "length (objs L) \<le> length (objs L')"
    and "length (hooks L) \<le> length (hooks L')"
    and "\<And>b. b < length (objs L) \<Longrightarrow>
         model (objs L' ! b) = model (objs L ! b) \<and>
         element_obj (objs L' ! b) = element_obj (objs L ! b) \<and>
         life_cycle_hook (objs L' ! b) = life_cycle_hook (objs L ! b)"
    and "\<And>k b. element_states L' k = Some b \<Longrightarrow>
         element_states L k = Some b \<or> length (objs L) \<le> b"
    and "\<exists>tr. trace L' = trace L @ tr"
    and "\<And>h. h < length (hooks L) \<Longrightarrow> hook_steps P (hooks L ! h) (hooks L' ! h)"
  shows "ext P L L'"
  unfolding ext_def
  by (intro conjI allI impI assms)

lemma extD:
  assumes "ext P L L'"
  shows "root L' = root L"
    and "rendering_queue L' = rendering_queue L"
    and "length (dicts L) \<le> length (dicts L')"
    and "length (objs L) \<le> length (objs L')"
    and "length (hooks L) \<le> length (hooks L')"
    and "\<And>b. b < length (objs L) \<Longrightarrow> model (objs L' ! b) = model (objs L ! b)"
    and "\<And>b. b < length (objs L) \<Longrightarrow> element_obj (objs L' ! b) = element_obj (objs L ! b)"
    and "\<And>b. b < length (objs L) \<Longrightarrow> life_cycle_hook (objs L' ! b) = life_cycle_hook (objs L ! b)"
    and "\<And>k b. element_states L' k = Some b \<Longrightarrow>
         element_states L k = Some b \<or> length (objs L) \<le> b"
    and "\<exists>tr. trace L' = trace L @ tr"
    and "\<And>h. h < length (hooks L) \<Longrightarrow> hook_steps P (hooks L ! h) (hooks L' ! h)"
proof -
  from assms have c:
    "root L' = root L \<and>
      rendering_queue L' = rendering_queue L \<and>
      length (dicts L) \<le> length (dicts L') \<and>
      length (objs L) \<le> length (objs L') \<and>
      length (hooks L) \<le> length (hooks L') \<and>
      (\<forall>b < length (objs L).
         model (objs L' ! b) = model (objs L ! b) \<and>
         element_obj (objs L' ! b) = element_obj (objs L ! b) \<and>
         life_cycle_hook (objs L' ! b) = life_cycle_hook (objs L ! b)) \<and>
      (\<forall>k b. element_states L' k = Some b \<longrightarrow>
         element_states L k = Some b \<or> length (objs L) \<le> b) \<and>
      (\<exists>tr. trace L' = trace L @ tr) \<and>
      (\<forall>h < length (hooks L). hook_steps P (hooks L ! h) (hooks L' ! h))"
    unfolding ext_def .
  from c show "root L' = root L" by (elim conjE)
  from c show "rendering_queue L' = rendering_queue L" by (elim conjE)
  from c show "length (dicts L) \<le> length (dicts L')" by (elim conjE)
  from c show "length (objs L) \<le> length (objs L')" by (elim conjE)
  from c show "length (hooks L) \<le> length (hooks L')" by (elim conjE)
  from c have f: "\<forall>b < length (objs L).
         model (objs L' ! b) = model (objs L ! b) \<and>
         element_obj (objs L' ! b) = element_obj (objs L ! b) \<and>
         life_cycle_hook (objs L' ! b) = life_cycle_hook (objs L ! b)" by (elim conjE)
  show "\<And>b. b < length (objs L) \<Longrightarrow> model (objs L' ! b) = model (objs L ! b)"
    using f by blast
  show "\<And>b. b < length (objs L) \<Longrightarrow> element_obj (objs L' ! b) = element_obj (objs L ! b)"
    using f by blast
  show "\<And>b. b < length (objs L) \<Longrightarrow> life_cycle_hook (objs L' ! b) = life_cycle_hook (objs L ! b)"
    using f by blast
  from c have t: "\<forall>k b. element_states L' k = Some b \<longrightarrow>
         element_states L k = Some b \<or> length (objs L) \<le> b" by (elim conjE)
  show "\<And>k b. element_states L' k = Some b \<Longrightarrow>
         element_states L k = Some b \<or> length (objs L) \<le> b"
    using t by blast
  from c show "\<exists>tr. trace L' = trace L @ tr" by (elim conjE)
  from c have h: "\<forall>h < length (hooks L). hook_steps P (hooks L ! h) (hooks L' ! h)" by (elim conjE)
  show "\<And>h. h < length (hooks L) \<Longrightarrow> hook_steps P (hooks L ! h) (hooks L' ! h)"
    using h by blast
qed

lemma ext_refl: "ext P L L"
  by (rule extI) (simp_all add: hook_same)

lemma ext_trans:
  assumes a: "ext P L L1" and b: "ext P L1 L2"
  shows "ext P L L2"
proof (rule extI)
  note x = extD [OF a] and y = extD [OF b]
  show "root L2 = root L" using x(1) y(1) by simp
  show "rendering_queue L2 = rendering_queue L" using x(2) y(2) by simp
  show "length (dicts L) \<le> length (dicts L2)" using x(3) y(3) by simp
  show "length (objs L) \<le> length (objs L2)" using x(4) y(4) by simp
  show "length (hooks L) \<le> length (hooks L2)" using x(5) y(5) by simp
  show "model (objs L2 ! b) = model (objs L ! b) \<and>
         element_obj (objs L2 ! b) = element_obj (objs L ! b) \<and>
         life_cycle_hook (objs L2 ! b) = life_cycle_hook (objs L ! b)"
    if "b < length (objs L)" for b
  proof -
    have "b < length (objs L1)" using that x(4) by simp
    then show ?thesis using x(6-8) [OF that] y(6-8) [of b] by simp
  qed
  show "element_states L k = Some b \<or> length (objs L) \<le> b"
    if "element_states L2 k = Some b" for k b
  proof -
    from y(9) [OF that] show ?thesis
    proof
      assume "element_states L1 k = Some b"
      then show ?thesis by (rule x(9))
    next
      assume "length (objs L1) \<le> b"
      then show ?thesis using x(4) by simp
    qed
  qed
  show "\<exists>tr. trace L2 = trace L @ tr"
  proof -
    from x(10) obtain t1 where "trace L1 = trace L @ t1" ..
    moreover from y(10) obtain t2 where "trace L2 = trace L1 @ t2" ..
    ultimately have "trace L2 = trace L @ (t1 @ t2)" by simp
    then show ?thesis ..
  qed
  show "hook_steps P (hooks L ! h) (hooks L2 ! h)" if "h < length (hooks L)" for h
  proof -
    have "h < length (hooks L1)" using that x(5) by simp
    from hook_steps_trans [OF y(11) [OF this] x(11) [OF that]] show ?thesis .
  qed
qed

lemma ext_frame:
  assumes "root L' = root L" and "rendering_queue L' = rendering_queue L"
    and "length (dicts L) \<le> length (dicts L')"
    and "length (objs L') = length (objs L)"
    and "\<And>b. model (objs L' ! b) = model (objs L ! b)"
    and "\<And>b. element_obj (objs L' ! b) = element_obj (objs L ! b)"
    and "\<And>b. life_cycle_hook (objs L' ! b) = life_cycle_hook (objs L ! b)"
    and "\<And>k b. element_states L' k = Some b \<Longrightarrow> element_states L k = Some b"
    and "\<exists>tr. trace L' = trace L @ tr"
    and "hooks L' = hooks L"
  shows "ext P L L'"
proof (rule extI)
  show "hook_steps P (hooks L ! h) (hooks L' ! h)" for h
    unfolding assms(10) by (rule hook_same)
qed (simp_all add: assms)

lemma nth_upd_field:
  assumes "\<And>x. f (g x) = f x"
  shows "f ((xs[a := g (xs ! a)]) ! b) = f (xs ! b)"
proof (cases "a < length xs")
  case True
  then show ?thesis by (cases "a = b") (simp_all add: assms)
next
  case False
  then show ?thesis by (simp add: list_update_beyond)
qed

lemma upd_ids_fields:
  "model ((xs[a := (xs ! a)\<lparr>event_handler_ids := X\<rparr>]) ! b) = model (xs ! b)"
  "element_obj ((xs[a := (xs ! a)\<lparr>event_handler_ids := X\<rparr>]) ! b) = element_obj (xs ! b)"
  "life_cycle_hook ((xs[a := (xs ! a)\<lparr>event_handler_ids := X\<rparr>]) ! b) = life_cycle_hook (xs ! b)"
  "child_elements_ids ((xs[a := (xs ! a)\<lparr>event_handler_ids := X\<rparr>]) ! b) = child_elements_ids (xs ! b)"
  by (rule nth_upd_field [where g = "\<lambda>x. x\<lparr>event_handler_ids := X\<rparr>"], simp)+

lemma upd_children_fields:
  "model ((xs[a := (xs ! a)\<lparr>child_elements_ids := X\<rparr>]) ! b) = model (xs ! b)"
  "element_obj ((xs[a := (xs ! a)\<lparr>child_elements_ids := X\<rparr>]) ! b) = element_obj (xs ! b)"
  "life_cycle_hook ((xs[a := (xs ! a)\<lparr>child_elements_ids := X\<rparr>]) ! b) = life_cycle_hook (xs ! b)"
  "event_handler_ids ((xs[a := (xs ! a)\<lparr>child_elements_ids := X\<rparr>]) ! b) = event_handler_ids (xs ! b)"
  by (rule nth_upd_field [where g = "\<lambda>x. x\<lparr>child_elements_ids := X\<rparr>"], simp)+

lemma ext_dicts: "length (dicts L) \<le> length ds \<Longrightarrow> ext P L (L\<lparr>dicts := ds\<rparr>)"
  by (rule ext_frame) simp_all

lemma ext_alloc: "alloc d L = (r, L') \<Longrightarrow> ext P L L'"
  by (auto simp: alloc_def intro: ext_dicts)

lemma ext_trace: "ext P L (L\<lparr>trace := trace L @ tr\<rparr>)"
  by (rule ext_frame) simp_all

lemma ext_set_current: "ext P L (set_current h L)"
  unfolding set_current_def by (rule ext_frame) simp_all

lemma ext_unset_current: "ext P L (unset_current h L)"
  unfolding unset_current_def by (rule ext_frame) simp_all

lemma ext_did_render: "ext P L (element_did_render h L)"
  unfolding element_did_render_def by (rule ext_frame) simp_all

lemma ext_will_unmount: "ext P L (element_will_unmount h L)"
  unfolding element_will_unmount_def by (rule ext_frame) simp_all

lemma ext_hook_update:
  assumes "h < length (hooks L) \<Longrightarrow> hook_steps P (hooks L ! h) hk"
  shows "ext P L (L\<lparr>hooks := (hooks L)[h := hk], trace := trace L @ tr\<rparr>)"
proof (rule extI)
  show "hook_steps P (hooks L ! h') (hooks (L\<lparr>hooks := (hooks L)[h := hk], trace := trace L @ tr\<rparr>) ! h')"
    if "h' < length (hooks L)" for h'
  proof (cases "h' = h")
    case True
    with that assms show ?thesis by simp
  next
    case False
    then show ?thesis by (simp add: hook_same)
  qed
qed simp_all

lemma ext_will_render: "ext P L (element_will_render h L)"
  unfolding element_will_render_def
  by (rule ext_hook_update) (rule hook_reset, rule hook_same)

lemma ext_ids: "ext P L (L\<lparr>objs := (objs L)[a := (objs L ! a)\<lparr>event_handler_ids := X\<rparr>]\<rparr>)"
  by (rule ext_frame) (simp_all add: upd_ids_fields)

lemma ext_children: "ext P L (L\<lparr>objs := (objs L)[a := (objs L ! a)\<lparr>child_elements_ids := X\<rparr>]\<rparr>)"
  by (rule ext_frame) (simp_all add: upd_children_fields)

lemma ext_handlers: "ext P L (L\<lparr>event_handlers := X\<rparr>)"
  by (rule ext_frame) simp_all

lemma ext_next_hid: "ext P L (L\<lparr>next_hid := X\<rparr>)"
  by (rule ext_frame) simp_all

lemma ext_delete: "ext P L (L\<lparr>element_states := (element_states L)(k := None)\<rparr>)"
  by (rule ext_frame) (simp_all split: if_splits)

lemma create_element_state_eq:
  "create_element_state e L =
     (length (objs L),
      L\<lparr>dicts := dicts L @ [[]],
        hooks := hooks L @ [\<lparr>hook_element = e, cursor = 0, cells = []\<rparr>],
        objs := objs L @ [\<lparr>model = length (dicts L), element_obj = e,
                event_handler_ids = {}, child_elements_ids = [],
                life_cycle_hook = length (hooks L)\<rparr>]\<rparr>)"
  by (simp add: create_element_state_def alloc_def Let_def)

lemma ext_mount:
  assumes "create_element_state e L = (a, L')"
  shows "ext P L (L'\<lparr>element_states := (element_states L')(k \<mapsto> a)\<rparr>)"
proof -
  from assms have a: "a = length (objs L)"
    and L': "L' = L\<lparr>dicts := dicts L @ [[]],
                     hooks := hooks L @ [\<lparr>hook_element = e, cursor = 0, cells = []\<rparr>],
                     objs := objs L @ [\<lparr>model = length (dicts L), element_obj = e,
                        event_handler_ids = {}, child_elements_ids = [],
                        life_cycle_hook = length (hooks L)\<rparr>]\<rparr>"
    unfolding create_element_state_eq by simp_all
  show ?thesis unfolding L' a
  proof (rule extI)
    fix k' b
    assume "element_states (L\<lparr>dicts := dicts L @ [[]],
                     hooks := hooks L @ [\<lparr>hook_element = e, cursor = 0, cells = []\<rparr>],
                     objs := objs L @ [\<lparr>model = length (dicts L), element_obj = e,
                        event_handler_ids = {}, child_elements_ids = [],
                        life_cycle_hook = length (hooks L)\<rparr>],
                     element_states := (element_states
                        (L\<lparr>dicts := dicts L @ [[]],
                     hooks := hooks L @ [\<lparr>hook_element = e, cursor = 0, cells = []\<rparr>],
                     objs := objs L @ [\<lparr>model = length (dicts L), element_obj = e,
                        event_handler_ids = {}, child_elements_ids = [],
                        life_cycle_hook = length (hooks L)\<rparr>]\<rparr>))(k \<mapsto> length (objs L))\<rparr>) k' = Some b"
    then show "element_states L k' = Some b \<or> length (objs L) \<le> b"
      by (cases "k' = k") simp_all
  next
    fix h assume "h < length (hooks L)"
    then show "hook_steps P (hooks L ! h)
       (hooks (L\<lparr>dicts := dicts L @ [[]],
                     hooks := hooks L @ [\<lparr>hook_element = e, cursor = 0, cells = []\<rparr>],
                     objs := objs L @ [\<lparr>model = length (dicts L), element_obj = e,
                        event_handler_ids = {}, child_elements_ids = [],
                        life_cycle_hook = length (hooks L)\<rparr>],
                     element_states := (element_states
                        (L\<lparr>dicts := dicts L @ [[]],
                     hooks := hooks L @ [\<lparr>hook_element = e, cursor = 0, cells = []\<rparr>],
                     objs := objs L @ [\<lparr>model = length (dicts L), element_obj = e,
                        event_handler_ids = {}, child_elements_ids = [],
                        life_cycle_hook = length (hooks L)\<rparr>]\<rparr>))(k \<mapsto> length (objs L))\<rparr>) ! h)"
      by (simp add: nth_append hook_same)
  qed (simp_all add: nth_append)
qed

lemma and_then_ReturnE:
  assumes "and_then r f = Return v L'"
  obtains x L1 where "r = Return x L1" and "f x L1 = Return v L'"
  using assms by (cases r) (simp_all add: and_then_def)

lemma and_then_Return [simp]: "and_then (Return x L) f = f x L"
  by (simp add: and_then_def)

lemma clear_handlers_Return:
  assumes "clear_element_state_event_handlers a L = Return u L'"
  shows "L' = L\<lparr>event_handlers := event_handlers L |` (- event_handler_ids (objs L ! a)),
                  objs := (objs L)[a := (objs L ! a)\<lparr>event_handler_ids := {}\<rparr>]\<rparr>"
    and "event_handler_ids (objs L ! a) \<subseteq> dom (event_handlers L)"
  using assms
  by (auto simp: clear_element_state_event_handlers_def Let_def split: if_splits)

lemma ext_clear_handlers:
  assumes "clear_element_state_event_handlers a L = Return u L'"
  shows "ext P L L'"
  unfolding clear_handlers_Return(1) [OF assms]
  by (rule ext_frame) (simp_all add: upd_ids_fields)

lemma ext_lift_attrs:
  "lift_attrs P at kvs hs L = Return hs' L' \<Longrightarrow> ext P L L'"
proof (induction P at kvs hs L rule: lift_attrs.induct)
  case (1 P at hs L)
  then show ?case by (simp add: ext_refl)
next
  case (2 P at k v kvs hs L)
  show ?case
  proof (cases "callable v")
    case False
    with 2 show ?thesis by simp
  next
    case True
    show ?thesis
    proof (cases "is_event_handler v")
      case True
      from "2.prems" \<open>callable v\<close> True
      have kin: "k \<in> fst ` set (dicts L ! at)" by (simp split: if_splits)
      with "2.prems" \<open>callable v\<close> True
      have r: "lift_attrs P at kvs (AList.update k v hs)
              (L\<lparr>dicts := (dicts L)[at := AList.delete k (dicts L ! at)]\<rparr>) = Return hs' L'"
        by simp
      have e1: "ext P L (L\<lparr>dicts := (dicts L)[at := AList.delete k (dicts L ! at)]\<rparr>)"
        by (rule ext_dicts) simp
      from "2.IH"(2) [OF \<open>callable v\<close> _ kin r] True
      have "ext P (L\<lparr>dicts := (dicts L)[at := AList.delete k (dicts L ! at)]\<rparr>) L'" by simp
      with e1 show ?thesis by (rule ext_trans)
    next
      case False
      define h where "h = EventHandler (new_handler_id P (next_hid L)) (case v of VFn f \<Rightarrow> [f] | _ \<Rightarrow> [])"
      define L1 where "L1 = L\<lparr>next_hid := Suc (next_hid L)\<rparr>"
      from "2.prems" \<open>callable v\<close> False
      have kin: "k \<in> fst ` set (dicts L1 ! at)" by (simp add: L1_def Let_def split: if_splits)
      with "2.prems" \<open>callable v\<close> False
      have r: "lift_attrs P at kvs (AList.update k (VHandler h) hs)
              (L1\<lparr>dicts := (dicts L1)[at := AList.delete k (dicts L1 ! at)]\<rparr>) = Return hs' L'"
        by (simp add: L1_def h_def Let_def)
      have e1: "ext P L L1" unfolding L1_def by (rule ext_next_hid)
      have e2: "ext P L1 (L1\<lparr>dicts := (dicts L1)[at := AList.delete k (dicts L1 ! at)]\<rparr>)"
        by (rule ext_dicts) simp
      from "2.IH"(1) [OF \<open>callable v\<close> False h_def L1_def kin r]
      have "ext P (L1\<lparr>dicts := (dicts L1)[at := AList.delete k (dicts L1 ! at)]\<rparr>) L'" .
      with ext_trans [OF e1 e2] show ?thesis by (rule ext_trans)
    qed
  qed
qed

lemma ext_render_model_event_handlers:
  assumes "render_model_event_handlers P a m L = Return v L'"
  shows "ext P L L'"
proof -
  from assms obtain hs0 L0 hs L1 where
    p1: "(case map_of (dicts L ! m) ''eventHandlers'' of
          None \<Rightarrow> Return [] L
        | Some (VRef r) \<Rightarrow>
            if r < length (dicts L)
            then Return (fold (\<lambda>(k, v). AList.update k v) (dicts L ! r) []) L
            else Raise TypeError
        | Some _ \<Rightarrow> Raise TypeError) = Return hs0 L0"
    and p2: "(case map_of (dicts L0 ! m) ''attributes'' of
          None \<Rightarrow> Return hs0 L0
        | Some (VRef at) \<Rightarrow>
            if at < length (dicts L0)
            then lift_attrs P at (dicts L0 ! at) hs0 L0
            else Raise AttributeError
        | Some _ \<Rightarrow> Raise AttributeError) = Return hs L1"
    and p3: "(if \<forall>v \<in> snd ` set hs. is_event_handler v then
            (let by_id = handlers_by_id hs;
                 L2 = L1\<lparr>objs := (objs L1)[a := (objs L1 ! a)\<lparr>event_handler_ids := dom by_id\<rparr>]\<rparr>;
                 L3 = L2\<lparr>event_handlers := event_handlers L2 ++ by_id\<rparr>;
                 (ser, L4) = serialize_all hs L3;
                 (r, L5) = alloc ser L4
             in Return (VRef r) L5)
          else Raise AttributeError) = Return v L'"
    unfolding render_model_event_handlers_def
    by (elim and_then_ReturnE) blast
  have e0: "L0 = L" using p1 by (auto split: option.splits val.splits if_splits)
  have e1: "ext P L0 L1" using p2
    by (auto split: option.splits val.splits if_splits intro: ext_refl ext_lift_attrs)
  define L3 where "L3 = L1\<lparr>objs := (objs L1)[a := (objs L1 ! a)\<lparr>event_handler_ids := dom (handlers_by_id hs)\<rparr>],
                          event_handlers := event_handlers L1 ++ handlers_by_id hs\<rparr>"
  have e3: "ext P L1 L3" unfolding L3_def
    by (rule ext_frame) (simp_all add: upd_ids_fields)
  from p3 have "L' = L3\<lparr>dicts := dicts L3 @ map (\<lambda>p. serialize (the_handler (snd p))) hs
                      @ [descriptors (length (dicts L3)) hs]\<rparr>"
    by (simp add: Let_def serialize_all_eq alloc_def L3_def split: if_splits)
  then have e4: "ext P L3 L'" by (simp add: ext_dicts)
  show ?thesis using e1 e3 e4 unfolding e0 by (blast intro: ext_trans)
qed

lemma ext_next_gen: "ext P L (snd (next_gen P e s L))"
proof (cases "hook_stack L")
  case Nil
  then show ?thesis by (simp add: next_gen_def ext_refl)
next
  case (Cons h hs)
  obtain g hk where r: "elem_render P e s (hooks L ! h) = (g, hk)"
    by (cases "elem_render P e s (hooks L ! h)")
  have "hook_steps P (hooks L ! h) (snd (elem_render P e s (hooks L ! h)))"
    by (rule hook_user) (rule hook_same)
  then have "ext P L (L\<lparr>hooks := (hooks L)[h := hk], trace := trace L @ []\<rparr>)"
    unfolding r by (intro ext_hook_update) simp
  then show ?thesis using Cons r by (simp add: next_gen_def)
qed

lemma ext_loop_body: "ext P L (snd (loop_body P a s L))"
proof -
  define h where "h = life_cycle_hook (objs L ! a)"
  define L1 where "L1 = set_current h L"
  obtain g L2 where n: "next_gen P (element_obj (objs L1 ! a)) s L1 = (g, L2)"
    by (cases "next_gen P (element_obj (objs L1 ! a)) s L1")
  have e1: "ext P L L1" unfolding L1_def by (rule ext_set_current)
  have e2: "ext P L1 L2" using ext_next_gen [of P L1 "element_obj (objs L1 ! a)" s] n by simp
  have e3: "ext P L2 (unset_current h L2)" by (rule ext_unset_current)
  have "snd (loop_body P a s L) = L2 \<or> snd (loop_body P a s L) = unset_current h L2"
    unfolding loop_body_def Let_def h_def [symmetric] L1_def [symmetric] n
    by (cases g) simp_all
  then show ?thesis using e1 e2 e3 by (auto intro: ext_trans)
qed

lemma ext_co_resume: "ext P L (snd (co_resume P a s L))"
  unfolding co_resume_def
  by (rule ext_trans [OF ext_unset_current ext_loop_body])

lemma ext_drive: "drive P n a (c, L1) = Return v L' \<Longrightarrow> ext P L1 L'"
proof (induction n arbitrary: c L1)
  case 0
  then show ?case by (cases c) (simp_all add: ext_refl)
next
  case (Suc n)
  show ?case
  proof (cases c)
    case (CoYield y s)
    obtain c2 L2 where r: "co_resume P a s L1 = (c2, L2)" by (cases "co_resume P a s L1")
    have e: "ext P L1 L2" using ext_co_resume [of P L1 a s] r by simp
    from Suc.prems have "drive P n a (c2, L2) = Return v L'" by (simp add: CoYield r)
    from Suc.IH [OF this] e show ?thesis by (blast intro: ext_trans)
  next
    case (CoReturn x)
    with Suc.prems show ?thesis by (simp add: ext_refl)
  next
    case (CoRaise x)
    with Suc.prems show ?thesis by simp
  qed
qed

lemma ext_render_with_life_cycle_hook:
  assumes "render_with_life_cycle_hook P n a L = Return v L'"
  shows "ext P L L'"
proof -
  obtain c L1 where r: "co_start P a L = (c, L1)" by (cases "co_start P a L")
  have e: "ext P L L1" using ext_loop_body [of P L a 0] r by (simp add: co_start_def)
  from assms have "drive P n a (c, L1) = Return v L'"
    by (simp add: render_with_life_cycle_hook_def r)
  from ext_drive [OF this] e show ?thesis by (blast intro: ext_trans)
qed

lemma unmI:
  assumes "root L' = root L" and "rendering_queue L' = rendering_queue L"
    and "dicts L' = dicts L" and "hooks L' = hooks L" and "next_hid L' = next_hid L"
    and "hook_stack L' = hook_stack L"
    and "length (objs L') = length (objs L)"
    and "\<And>b. model (objs L' ! b) = model (objs L ! b)"
    and "\<And>b. element_obj (objs L' ! b) = element_obj (objs L ! b)"
    and "\<And>b. life_cycle_hook (objs L' ! b) = life_cycle_hook (objs L ! b)"
    and "\<And>k. element_states L' k = element_states L k \<or> element_states L' k = None"
    and "\<And>i. event_handlers L' i = event_handlers L i \<or> event_handlers L' i = None"
    and "\<exists>tr. trace L' = trace L @ tr \<and> (\<forall>ev \<in> set tr. \<exists>h. ev = WillUnmount h)"
  shows "unm L L'"
  unfolding unm_def by (intro conjI allI assms)

lemma unmD:
  assumes "unm L L'"
  shows "root L' = root L" and "rendering_queue L' = rendering_queue L"
    and "dicts L' = dicts L" and "hooks L' = hooks L" and "next_hid L' = next_hid L"
    and "hook_stack L' = hook_stack L"
    and "length (objs L') = length (objs L)"
    and "\<And>b. model (objs L' ! b) = model (objs L ! b)"
    and "\<And>b. element_obj (objs L' ! b) = element_obj (objs L ! b)"
    and "\<And>b. life_cycle_hook (objs L' ! b) = life_cycle_hook (objs L ! b)"
    and "\<And>k. element_states L' k = element_states L k \<or> element_states L' k = None"
    and "\<And>i. event_handlers L' i = event_handlers L i \<or> event_handlers L' i = None"
    and "\<exists>tr. trace L' = trace L @ tr \<and> (\<forall>ev \<in> set tr. \<exists>h. ev = WillUnmount h)"
proof -
  from assms have c:
    "root L' = root L \<and> rendering_queue L' = rendering_queue L \<and>
      dicts L' = dicts L \<and> hooks L' = hooks L \<and> next_hid L' = next_hid L \<and>
      hook_stack L' = hook_stack L \<and>
      length (objs L') = length (objs L) \<and>
      (\<forall>b. model (objs L' ! b) = model (objs L ! b) \<and>
           element_obj (objs L' ! b) = element_obj (objs L ! b) \<and>
           life_cycle_hook (objs L' ! b) = life_cycle_hook (objs L ! b)) \<and>
      (\<forall>k. element_states L' k = element_states L k \<or> element_states L' k = None) \<and>
      (\<forall>i. event_handlers L' i = event_handlers L i \<or> event_handlers L' i = None) \<and>
      (\<exists>tr. trace L' = trace L @ tr \<and> (\<forall>ev \<in> set tr. \<exists>h. ev = WillUnmount h))"
    unfolding unm_def .
  from c show "root L' = root L" by (elim conjE)
  from c show "rendering_queue L' = rendering_queue L" by (elim conjE)
  from c show "dicts L' = dicts L" by (elim conjE)
  from c show "hooks L' = hooks L" by (elim conjE)
  from c show "next_hid L' = next_hid L" by (elim conjE)
  from c show "hook_stack L' = hook_stack L" by (elim conjE)
  from c show "length (objs L') = length (objs L)" by (elim conjE)
  from c have f: "\<forall>b. model (objs L' ! b) = model (objs L ! b) \<and>
           element_obj (objs L' ! b) = element_obj (objs L ! b) \<and>
           life_cycle_hook (objs L' ! b) = life_cycle_hook (objs L ! b)" by (elim conjE)
  show "\<And>b. model (objs L' ! b) = model (objs L ! b)" using f by simp
  show "\<And>b. element_obj (objs L' ! b) = element_obj (objs L ! b)" using f by simp
  show "\<And>b. life_cycle_hook (objs L' ! b) = life_cycle_hook (objs L ! b)" using f by simp
  from c have t: "\<forall>k. element_states L' k = element_states L k \<or> element_states L' k = None"
    by (elim conjE)
  show "\<And>k. element_states L' k = element_states L k \<or> element_states L' k = None"
    using t by (rule spec)
  from c have t2: "\<forall>i. event_handlers L' i = event_handlers L i \<or> event_handlers L' i = None"
    by (elim conjE)
  show "\<And>i. event_handlers L' i = event_handlers L i \<or> event_handlers L' i = None"
    using t2 by (rule spec)
  from c show "\<exists>tr. trace L' = trace L @ tr \<and> (\<forall>ev \<in> set tr. \<exists>h. ev = WillUnmount h)"
    by (elim conjE)
qed

lemma unm_refl: "unm L L"
  by (rule unmI) simp_all

lemma unm_trans:
  assumes a: "unm L L1" and b: "unm L1 L2"
  shows "unm L L2"
proof (rule unmI)
  note x = unmD [OF a] and y = unmD [OF b]
  show "root L2 = root L" using x(1) y(1) by simp
  show "rendering_queue L2 = rendering_queue L" using x(2) y(2) by simp
  show "dicts L2 = dicts L" using x(3) y(3) by simp
  show "hooks L2 = hooks L" using x(4) y(4) by simp
  show "next_hid L2 = next_hid L" using x(5) y(5) by simp
  show "hook_stack L2 = hook_stack L" using x(6) y(6) by simp
  show "length (objs L2) = length (objs L)" using x(7) y(7) by simp
  show "model (objs L2 ! b) = model (objs L ! b)" for b using x(8) y(8) by simp
  show "element_obj (objs L2 ! b) = element_obj (objs L ! b)" for b using x(9) y(9) by simp
  show "life_cycle_hook (objs L2 ! b) = life_cycle_hook (objs L ! b)" for b
    using x(10) y(10) by simp
  show "element_states L2 k = element_states L k \<or> element_states L2 k = None" for k
    using x(11) [of k] y(11) [of k] by presburger
  show "event_handlers L2 i = event_handlers L i \<or> event_handlers L2 i = None" for i
    using x(12) [of i] y(12) [of i] by presburger
  show "\<exists>tr. trace L2 = trace L @ tr \<and> (\<forall>ev \<in> set tr. \<exists>h. ev = WillUnmount h)"
  proof -
    from x(13) obtain t1 where t1: "trace L1 = trace L @ t1" "\<forall>ev \<in> set t1. \<exists>h. ev = WillUnmount h"
      by blast
    from y(13) obtain t2 where t2: "trace L2 = trace L1 @ t2" "\<forall>ev \<in> set t2. \<exists>h. ev = WillUnmount h"
      by blast
    have "trace L2 = trace L @ (t1 @ t2)" using t1(1) t2(1) by simp
    moreover have "\<forall>ev \<in> set (t1 @ t2). \<exists>h. ev = WillUnmount h" using t1(2) t2(2) by auto
    ultimately show ?thesis by blast
  qed
qed

lemma unm_ext: assumes "unm L L'" shows "ext P L L'"
proof (rule ext_frame)
  note x = unmD [OF assms]
  show "root L' = root L" by (rule x(1))
  show "rendering_queue L' = rendering_queue L" by (rule x(2))
  show "length (dicts L) \<le> length (dicts L')" using x(3) by simp
  show "length (objs L') = length (objs L)" by (rule x(7))
  show "model (objs L' ! b) = model (objs L ! b)" for b by (rule x(8))
  show "element_obj (objs L' ! b) = element_obj (objs L ! b)" for b by (rule x(9))
  show "life_cycle_hook (objs L' ! b) = life_cycle_hook (objs L ! b)" for b by (rule x(10))
  show "element_states L k = Some b" if "element_states L' k = Some b" for k b
    using x(11) [of k] that by auto
  show "\<exists>tr. trace L' = trace L @ tr" using x(13) by blast
  show "hooks L' = hooks L" by (rule x(4))
qed

lemma unm_will_unmount: "unm L (element_will_unmount h L)"
  unfolding element_will_unmount_def by (rule unmI) simp_all

lemma unm_clear_handlers:
  assumes "clear_element_state_event_handlers a L = Return u L'"
  shows "unm L L'"
  unfolding clear_handlers_Return(1) [OF assms]
  by (rule unmI) (simp_all add: upd_ids_fields restrict_map_def)

lemma unm_children_reset:
  "unm L (L\<lparr>objs := (objs L)[a := (objs L ! a)\<lparr>child_elements_ids := []\<rparr>]\<rparr>)"
  by (rule unmI) (simp_all add: upd_children_fields)

lemma unm_delete: "unm L (L\<lparr>element_states := (element_states L)(k := None)\<rparr>)"
  by (rule unmI) simp_all

lemma fired_then:
  assumes "fired L L1 ev" and "\<exists>tr. trace L2 = trace L1 @ tr"
  shows "fired L L2 ev"
proof -
  from assms(1) obtain t1 t2 where "trace L1 = trace L @ t1 @ ev # t2"
    unfolding fired_def by blast
  moreover from assms(2) obtain tr where "trace L2 = trace L1 @ tr" ..
  ultimately have "trace L2 = trace L @ t1 @ ev # (t2 @ tr)" by simp
  then show ?thesis unfolding fired_def by blast
qed

lemma fired_after:
  assumes "\<exists>tr. trace L1 = trace L @ tr" and "fired L1 L2 ev"
  shows "fired L L2 ev"
proof -
  from assms(2) obtain t1 t2 where "trace L2 = trace L1 @ t1 @ ev # t2"
    unfolding fired_def by blast
  moreover from assms(1) obtain tr where "trace L1 = trace L @ tr" ..
  ultimately have "trace L2 = trace L @ (tr @ t1) @ ev # t2" by simp
  then show ?thesis unfolding fired_def by blast
qed

lemma unm_prefix: "unm L L' \<Longrightarrow> \<exists>tr. trace L' = trace L @ tr"
  using unmD(13) by blast

lemma unmounted_then:
  assumes "unmounted P b L L1" and "unm L1 L2"
  shows "unmounted P b L L2"
proof -
  from assms(1) have d: "element_states L1 (elem_id P (element_obj (objs L ! b))) = None"
    and f: "fired L L1 (WillUnmount (life_cycle_hook (objs L ! b)))"
    unfolding unmounted_def by simp_all
  have "element_states L2 (elem_id P (element_obj (objs L ! b))) = None"
    using unmD(11) [OF assms(2), of "elem_id P (element_obj (objs L ! b))"] d by auto
  moreover have "fired L L2 (WillUnmount (life_cycle_hook (objs L ! b)))"
    by (rule fired_then [OF f unm_prefix [OF assms(2)]])
  ultimately show ?thesis unfolding unmounted_def by simp
qed

lemma unmounted_after:
  assumes "unm L L1" and "unmounted P b L1 L2"
  shows "unmounted P b L L2"
proof -
  from assms(2) have d: "element_states L2 (elem_id P (element_obj (objs L1 ! b))) = None"
    and f: "fired L1 L2 (WillUnmount (life_cycle_hook (objs L1 ! b)))"
    unfolding unmounted_def by simp_all
  note x = unmD [OF assms(1)]
  have "fired L L2 (WillUnmount (life_cycle_hook (objs L ! b)))"
    using fired_after [OF unm_prefix [OF assms(1)] f] unfolding x(10) .
  with d show ?thesis unfolding unmounted_def x(9) by simp
qed

lemma unmount_each_post:
  assumes U: "\<And>a L L'. unmount_element_state P n a L = Return () L' \<Longrightarrow>
                unm L L' \<and> unmounted P a L L'"
  shows "unmount_each P n cs L = Return () L' \<Longrightarrow>
         unm L L' \<and> (\<forall>c \<in> set cs. \<exists>b. element_states L c = Some b \<and> unmounted P b L L')"
proof (induction cs arbitrary: L)
  case Nil
  then show ?case by (simp add: unm_refl)
next
  case (Cons c cs)
  from Cons.prems obtain b where b: "element_states L c = Some b"
    by (cases "element_states L c") simp_all
  from Cons.prems b obtain L1 where
    s1: "unmount_element_state P n b L = Return () L1"
    and s2: "unmount_each P n cs L1 = Return () L'"
    by (auto elim!: and_then_ReturnE)
  from U [OF s1] have u1: "unm L L1" and m1: "unmounted P b L L1" by simp_all
  from Cons.IH [OF s2] have u2: "unm L1 L'"
    and rest: "\<forall>c \<in> set cs. \<exists>b. element_states L1 c = Some b \<and> unmounted P b L1 L'"
    by simp_all
  have "\<exists>b'. element_states L c' = Some b' \<and> unmounted P b' L L'" if "c' \<in> set (c # cs)" for c'
  proof (cases "c' \<in> set cs")
    case True
    with rest obtain b' where b': "element_states L1 c' = Some b'" "unmounted P b' L1 L'"
      by blast
    have "element_states L c' = Some b'"
      using unmD(11) [OF u1, of c'] b'(1) by auto
    moreover have "unmounted P b' L L'" by (rule unmounted_after [OF u1 b'(2)])
    ultimately show ?thesis by blast
  next
    case False
    with that have "c' = c" by simp
    with b unmounted_then [OF m1 u2] show ?thesis by blast
  qed
  with unm_trans [OF u1 u2] show ?case by blast
qed

lemma unmount_children_post:
  assumes U: "\<And>a L L'. unmount_element_state P n a L = Return () L' \<Longrightarrow>
                unm L L' \<and> unmounted P a L L'"
    and r: "unmount_element_state_children P n a L = Return () L'"
  shows "unm L L'"
    and "\<forall>c \<in> set (child_elements_ids (objs L ! a)).
           \<exists>b. element_states L c = Some b \<and> unmounted P b L L'"
    and "a < length (objs L) \<Longrightarrow> child_elements_ids (objs L' ! a) = []"
proof -
  from r obtain L1 where
    s1: "unmount_each P n (child_elements_ids (objs L ! a)) L = Return () L1"
    and L': "L' = L1\<lparr>objs := (objs L1)[a := (objs L1 ! a)\<lparr>child_elements_ids := []\<rparr>]\<rparr>"
    by (auto elim!: and_then_ReturnE)
  from unmount_each_post [OF U s1] have u1: "unm L L1"
    and ch: "\<forall>c \<in> set (child_elements_ids (objs L ! a)).
           \<exists>b. element_states L c = Some b \<and> unmounted P b L L1"
    by simp_all
  have u2: "unm L1 L'" unfolding L' by (rule unm_children_reset)
  show "unm L L'" by (rule unm_trans [OF u1 u2])
  show "\<forall>c \<in> set (child_elements_ids (objs L ! a)).
           \<exists>b. element_states L c = Some b \<and> unmounted P b L L'"
    using ch unmounted_then [OF _ u2] by blast
  show "a < length (objs L) \<Longrightarrow> child_elements_ids (objs L' ! a) = []"
    unfolding L' using unmD(7) [OF u1] by simp
qed

lemma unmount_element_state_post:
  "unmount_element_state P n a L = Return () L' \<Longrightarrow> unm L L' \<and> unmounted P a L L'"
proof (induction n arbitrary: a L L')
  case 0
  then show ?case by simp
next
  case (Suc n)
  define h where "h = life_cycle_hook (objs L ! a)"
  define L1 where "L1 = element_will_unmount h L"
  from Suc.prems obtain L2 L3 where
    s2: "clear_element_state_event_handlers a L1 = Return () L2"
    and s3: "unmount_element_state_children P n a L2 = Return () L3"
    and s4: "(let k = elem_id P (element_obj (objs L3 ! a)) in
       if k \<in> dom (element_states L3)
       then Return () (L3\<lparr>element_states := (element_states L3)(k := None)\<rparr>)
       else Raise KeyError) = Return () L'"
    unfolding unmount_element_state.simps h_def [symmetric] L1_def [symmetric]
    by (auto elim!: and_then_ReturnE)
  have u1: "unm L L1" unfolding L1_def by (rule unm_will_unmount)
  have u2: "unm L1 L2" by (rule unm_clear_handlers [OF s2])
  have u3: "unm L2 L3" by (rule unmount_children_post(1) [OF Suc.IH s3])
  define k where "k = elem_id P (element_obj (objs L3 ! a))"
  from s4 have L': "L' = L3\<lparr>element_states := (element_states L3)(k := None)\<rparr>"
    unfolding k_def [symmetric] Let_def by (simp split: if_splits)
  have u4: "unm L3 L'" unfolding L' by (rule unm_delete)
  have u13: "unm L L3" by (rule unm_trans [OF u1 unm_trans [OF u2 u3]])
  have u: "unm L L'" by (rule unm_trans [OF u13 u4])
  have keq: "k = elem_id P (element_obj (objs L ! a))"
    unfolding k_def unmD(9) [OF u13] ..
  have d: "element_states L' (elem_id P (element_obj (objs L ! a))) = None"
    unfolding keq [symmetric] L' by simp
  have "trace L1 = trace L @ [] @ WillUnmount h # []"
    by (simp add: L1_def element_will_unmount_def)
  then have "fired L L1 (WillUnmount h)" unfolding fired_def by blast
  then have "fired L L' (WillUnmount h)"
    by (rule fired_then)
       (rule unm_prefix [OF unm_trans [OF u2 unm_trans [OF u3 u4]]])
  with d u show ?case unfolding unmounted_def h_def by simp
qed

lemma unmount_children_unm:
  "unmount_element_state_children P n a L = Return () L' \<Longrightarrow> unm L L'"
  by (rule unmount_children_post(1) [OF unmount_element_state_post])

lemma ext_render_model_children:
  assumes E: "\<And>e L v L'. render_element P n e L = Return v L' \<Longrightarrow> ext P L L'"
    and M: "\<And>a mv L v L'. render_model P n a mv L = Return v L' \<Longrightarrow> ext P L L'"
  shows "render_model_children P n a cs acc L = Return v L' \<Longrightarrow> ext P L L'"
proof (induction cs arbitrary: acc L)
  case Nil
  then show ?case by (simp add: ext_refl)
next
  case (Cons child rest)
  show ?case
  proof (cases child)
    case (VRef r)
    from Cons.prems obtain x L1 where
      s1: "render_model P n a child L = Return x L1"
      and s2: "render_model_children P n a rest (acc @ [x]) L1 = Return v L'"
      unfolding VRef by (auto elim!: and_then_ReturnE)
    from M [OF s1] Cons.IH [OF s2] show ?thesis by (rule ext_trans)
  next
    case (VElem c)
    define L0 where "L0 = L\<lparr>objs := (objs L)[a := (objs L ! a)\<lparr>child_elements_ids :=
                    child_elements_ids (objs L ! a) @ [elem_id P c]\<rparr>]\<rparr>"
    from Cons.prems obtain x L1 where
      s1: "render_element P n c L0 = Return x L1"
      and s2: "render_model_children P n a rest (acc @ [x]) L1 = Return v L'"
      unfolding VElem L0_def by (auto elim!: and_then_ReturnE)
    have e0: "ext P L L0" unfolding L0_def by (rule ext_children)
    from ext_trans [OF e0 E [OF s1]] Cons.IH [OF s2] show ?thesis by (rule ext_trans)
  next
    case VNone
    with Cons.prems have "render_model_children P n a rest (acc @ [VStr (str_of P child)]) L = Return v L'"
      by simp
    then show ?thesis by (rule Cons.IH)
  next
    case (VStr x)
    with Cons.prems have "render_model_children P n a rest (acc @ [VStr (str_of P child)]) L = Return v L'"
      by simp
    then show ?thesis by (rule Cons.IH)
  next
    case (VInt x)
    with Cons.prems have "render_model_children P n a rest (acc @ [VStr (str_of P child)]) L = Return v L'"
      by simp
    then show ?thesis by (rule Cons.IH)
  next
    case (VFn x)
    with Cons.prems have "render_model_children P n a rest (acc @ [VStr (str_of P child)]) L = Return v L'"
      by simp
    then show ?thesis by (rule Cons.IH)
  next
    case (VHandler x)
    with Cons.prems have "render_model_children P n a rest (acc @ [VStr (str_of P child)]) L = Return v L'"
      by simp
    then show ?thesis by (rule Cons.IH)
  next
    case (VList x)
    with Cons.prems have "render_model_children P n a rest (acc @ [VStr (str_of P child)]) L = Return v L'"
      by simp
    then show ?thesis by (rule Cons.IH)
  next
    case (VTuple x)
    with Cons.prems have "render_model_children P n a rest (acc @ [VStr (str_of P child)]) L = Return v L'"
      by simp
    then show ?thesis by (rule Cons.IH)
  qed
qed

lemma render_element_SucE:
  assumes "render_element P (Suc n) e L = Return v L'"
  obtains L3 L4 raw L5 rm L6 r L7 where
    "clear_element_state_event_handlers (the (element_states (mounted P e L) (elem_id P e)))
        (element_will_render (life_cycle_hook (objs (mounted P e L) !
            the (element_states (mounted P e L) (elem_id P e)))) (mounted P e L)) = Return () L3"
    and "unmount_element_state_children P n (the (element_states (mounted P e L) (elem_id P e))) L3
           = Return () L4"
    and "render_with_life_cycle_hook P n (the (element_states (mounted P e L) (elem_id P e))) L4
           = Return raw L5"
    and "(if is_element raw
          then (case alloc [(''tagName'', VStr ''div''), (''children'', VList [raw])] L5 of
                  (r, L') \<Rightarrow> Return (VRef r) L')
          else Return raw L5) = Return rm L6"
    and "render_model P n (the (element_states (mounted P e L) (elem_id P e))) rm L6
           = Return (VRef r) L7"
    and "v = VRef (model (objs L7 ! the (element_states (mounted P e L) (elem_id P e))))"
    and "L' = element_did_render
           (life_cycle_hook (objs (mounted P e L) ! the (element_states (mounted P e L) (elem_id P e))))
           (model_replaced (model (objs L7 ! the (element_states (mounted P e L) (elem_id P e)))) r L7)"
proof -
  define L1 where "L1 = mounted P e L"
  define a where "a = the (element_states L1 (elem_id P e))"
  define h where "h = life_cycle_hook (objs L1 ! a)"
  have "render_element P (Suc n) e L =
     and_then (Return () (element_will_render h L1)) (\<lambda>u L2.
     and_then (clear_element_state_event_handlers a L2) (\<lambda>u L3.
     and_then (unmount_element_state_children P n a L3) (\<lambda>u L4.
     and_then (render_with_life_cycle_hook P n a L4) (\<lambda>raw L5.
     and_then (if is_element raw
               then (case alloc [(''tagName'', VStr ''div''), (''children'', VList [raw])] L5 of
                  (r, L') \<Rightarrow> Return (VRef r) L')
               else Return raw L5) (\<lambda>raw_model L6.
     and_then (render_model P n a raw_model L6) (\<lambda>resolved L7.
       (case resolved of
          VRef r \<Rightarrow> Return (VRef (model (objs L7 ! a)))
                     (element_did_render h (model_replaced (model (objs L7 ! a)) r L7))
        | _ \<Rightarrow> Raise TypeError)))))))"
    unfolding render_element.simps Let_def h_def a_def L1_def mounted_def model_replaced_def ..
  with assms obtain u3 u4 L3 L4 raw L5 rm L6 resolved L7 where
    s: "clear_element_state_event_handlers a (element_will_render h L1) = Return u3 L3"
       "unmount_element_state_children P n a L3 = Return u4 L4"
       "render_with_life_cycle_hook P n a L4 = Return raw L5"
       "(if is_element raw
               then (case alloc [(''tagName'', VStr ''div''), (''children'', VList [raw])] L5 of
                  (r, L') \<Rightarrow> Return (VRef r) L')
               else Return raw L5) = Return rm L6"
       "render_model P n a rm L6 = Return resolved L7"
       "(case resolved of
          VRef r \<Rightarrow> Return (VRef (model (objs L7 ! a)))
                     (element_did_render h (model_replaced (model (objs L7 ! a)) r L7))
        | _ \<Rightarrow> Raise TypeError) = Return v L'"
    by (simp only: and_then_Return) (elim and_then_ReturnE, rule that, assumption+)
  from s(6) obtain r where r: "resolved = VRef r" by (cases resolved) simp_all
  from s(6) have "v = VRef (model (objs L7 ! a))"
    and "L' = element_did_render h (model_replaced (model (objs L7 ! a)) r L7)"
    unfolding r by simp_all
  with s(1-5) show ?thesis
    unfolding r h_def a_def L1_def by (intro that) simp_all
qed

lemma render_model_SucE:
  assumes "render_model P (Suc n) a mv L = Return v L'"
  obtains (leaf) src ehs L2 where
      "mv = VRef src" and "src < length (dicts L)"
      and "render_model_event_handlers P a (length (dicts L)) (L\<lparr>dicts := dicts L @ [dicts L ! src]\<rparr>)
             = Return ehs L2"
      and "map_of (dicts (item_set (length (dicts L)) ''eventHandlers'' ehs L2) ! length (dicts L))
             ''children'' = None"
      and "v = VRef (length (dicts L))"
      and "L' = item_set (length (dicts L)) ''eventHandlers'' ehs L2"
  | (node) src ehs L2 cs rcs L4 where
      "mv = VRef src" and "src < length (dicts L)"
      and "render_model_event_handlers P a (length (dicts L)) (L\<lparr>dicts := dicts L @ [dicts L ! src]\<rparr>)
             = Return ehs L2"
      and "map_of (dicts (item_set (length (dicts L)) ''eventHandlers'' ehs L2) ! length (dicts L))
             ''children'' = Some cs"
      and "render_model_children P n a (children_list cs) []
             (item_set (length (dicts L)) ''eventHandlers'' ehs L2) = Return rcs L4"
      and "v = VRef (length (dicts L))"
      and "L' = item_set (length (dicts L)) ''children'' rcs L4"
proof -
  from assms obtain src where mv: "mv = VRef src" by (cases mv) simp_all
  from assms have src: "src < length (dicts L)" unfolding mv by (simp split: if_splits)
  define m where "m = length (dicts L)"
  have "render_model P (Suc n) a mv L =
     and_then (render_model_event_handlers P a m (L\<lparr>dicts := dicts L @ [dicts L ! src]\<rparr>)) (\<lambda>ehs L2.
       (case map_of (dicts (item_set m ''eventHandlers'' ehs L2) ! m) ''children'' of
          None \<Rightarrow> Return (VRef m) (item_set m ''eventHandlers'' ehs L2)
        | Some cs \<Rightarrow>
            and_then (render_model_children P n a (children_list cs) []
                        (item_set m ''eventHandlers'' ehs L2)) (\<lambda>rcs L4.
              Return (VRef m) (item_set m ''children'' rcs L4))))"
    unfolding mv item_set_def m_def using src
    by (simp add: alloc_def)
  from assms [unfolded this] obtain ehs L2 where
    s1: "render_model_event_handlers P a m (L\<lparr>dicts := dicts L @ [dicts L ! src]\<rparr>) = Return ehs L2"
    and s2: "(case map_of (dicts (item_set m ''eventHandlers'' ehs L2) ! m) ''children'' of
          None \<Rightarrow> Return (VRef m) (item_set m ''eventHandlers'' ehs L2)
        | Some cs \<Rightarrow>
            and_then (render_model_children P n a (children_list cs) []
                        (item_set m ''eventHandlers'' ehs L2)) (\<lambda>rcs L4.
              Return (VRef m) (item_set m ''children'' rcs L4))) = Return v L'"
    by (elim and_then_ReturnE) simp
  show ?thesis
  proof (cases "map_of (dicts (item_set m ''eventHandlers'' ehs L2) ! m) ''children''")
    case None
    with s2 have "v = VRef m" and "L' = item_set m ''eventHandlers'' ehs L2" by simp_all
    with mv src s1 None show ?thesis unfolding m_def by (intro leaf) simp_all
  next
    case (Some cs)
    with s2 obtain rcs L4 where
      s3: "render_model_children P n a (children_list cs) []
             (item_set m ''eventHandlers'' ehs L2) = Return rcs L4"
      and s4: "Return (VRef m) (item_set m ''children'' rcs L4) = Return v L'"
      by (simp only: option.case) (elim and_then_ReturnE)
    from s4 have "v = VRef m" and "L' = item_set m ''children'' rcs L4" by simp_all
    with mv src s1 Some s3 show ?thesis unfolding m_def by (intro node) simp_all
  qed
qed

lemma ext_item_set: "ext P L (item_set m k v L)"
  unfolding item_set_def by (rule ext_dicts) simp

lemma ext_model_replaced: "ext P L (model_replaced m r L)"
  unfolding model_replaced_def
  by (rule ext_trans [OF ext_dicts ext_dicts]) simp_all

lemma ext_mounted: "ext P L (mounted P e L)"
proof (cases "elem_id P e \<in> dom (element_states L)")
  case True
  then show ?thesis by (simp add: mounted_def ext_refl)
next
  case False
  obtain a L1 where c: "create_element_state e L = (a, L1)" by (cases "create_element_state e L")
  from ext_mount [OF c, of P "elem_id P e"] False c show ?thesis
    by (simp add: mounted_def)
qed

lemma ext_render:
  "(\<forall>e L v L'. render_element P n e L = Return v L' \<longrightarrow> ext P L L') \<and>
   (\<forall>a mv L v L'. render_model P n a mv L = Return v L' \<longrightarrow> ext P L L')"
proof (induction n)
  case 0
  show ?case by simp
next
  case (Suc n)
  then have E: "\<And>e L v L'. render_element P n e L = Return v L' \<Longrightarrow> ext P L L'"
    and M: "\<And>a mv L v L'. render_model P n a mv L = Return v L' \<Longrightarrow> ext P L L'"
    by blast+
  have C: "ext P L L'" if "render_model_children P n a cs acc L = Return v L'"
    for a cs acc L v L'
  proof (rule ext_render_model_children [OF _ _ that])
    show "\<And>e L v L'. render_element P n e L = Return v L' \<Longrightarrow> ext P L L'" by (rule E)
    show "\<And>a mv L v L'. render_model P n a mv L = Return v L' \<Longrightarrow> ext P L L'" by (rule M)
  qed
  have "ext P L L'" if r: "render_element P (Suc n) e L = Return v L'" for e L v L'
  proof -
    from r obtain L3 L4 raw L5 rm L6 r7 L7 where
      s: "clear_element_state_event_handlers (the (element_states (mounted P e L) (elem_id P e)))
        (element_will_render (life_cycle_hook (objs (mounted P e L) !
            the (element_states (mounted P e L) (elem_id P e)))) (mounted P e L)) = Return () L3"
      "unmount_element_state_children P n (the (element_states (mounted P e L) (elem_id P e))) L3
           = Return () L4"
      "render_with_life_cycle_hook P n (the (element_states (mounted P e L) (elem_id P e))) L4
           = Return raw L5"
      "(if is_element raw
          then (case alloc [(''tagName'', VStr ''div''), (''children'', VList [raw])] L5 of
                  (r, L') \<Rightarrow> Return (VRef r) L')
          else Return raw L5) = Return rm L6"
      "render_model P n (the (element_states (mounted P e L) (elem_id P e))) rm L6
           = Return (VRef r7) L7"
      "L' = element_did_render
           (life_cycle_hook (objs (mounted P e L) ! the (element_states (mounted P e L) (elem_id P e))))
           (model_replaced (model (objs L7 ! the (element_states (mounted P e L) (elem_id P e)))) r7 L7)"
      by (rule render_element_SucE)
    have e1: "ext P L (mounted P e L)" by (rule ext_mounted)
    have e2: "ext P (mounted P e L) L3"
      by (rule ext_trans [OF ext_will_render ext_clear_handlers [OF s(1)]])
    have e3: "ext P L3 L4" by (rule unm_ext [OF unmount_children_unm [OF s(2)]])
    have e4: "ext P L4 L5" by (rule ext_render_with_life_cycle_hook [OF s(3)])
    have e5: "ext P L5 L6" using s(4)
      by (auto simp: alloc_def split: if_splits intro: ext_refl ext_dicts)
    have e6: "ext P L6 L7" by (rule M [OF s(5)])
    have e7: "ext P L7 L'" unfolding s(6)
      by (rule ext_trans [OF ext_model_replaced ext_did_render])
    show ?thesis
      by (rule ext_trans [OF e1 ext_trans [OF e2 ext_trans [OF e3 ext_trans [OF e4
            ext_trans [OF e5 ext_trans [OF e6 e7]]]]]])
  qed
  moreover have "ext P L L'" if r: "render_model P (Suc n) a mv L = Return v L'" for a mv L v L'
    using r
  proof (cases rule: render_model_SucE)
    case (leaf src ehs L2)
    have e1: "ext P L (L\<lparr>dicts := dicts L @ [dicts L ! src]\<rparr>)" by (rule ext_dicts) simp
    have e2: "ext P (L\<lparr>dicts := dicts L @ [dicts L ! src]\<rparr>) L2"
      by (rule ext_render_model_event_handlers [OF leaf(3)])
    show ?thesis unfolding leaf(6)
      by (rule ext_trans [OF e1 ext_trans [OF e2 ext_item_set]])
  next
    case (node src ehs L2 cs rcs L4)
    have e1: "ext P L (L\<lparr>dicts := dicts L @ [dicts L ! src]\<rparr>)" by (rule ext_dicts) simp
    have e2: "ext P (L\<lparr>dicts := dicts L @ [dicts L ! src]\<rparr>) L2"
      by (rule ext_render_model_event_handlers [OF node(3)])
    have e3: "ext P (item_set (length (dicts L)) ''eventHandlers'' ehs L2) L4"
      by (rule C [OF node(5)])
    show ?thesis unfolding node(7)
      by (rule ext_trans [OF e1 ext_trans [OF e2 ext_trans [OF ext_item_set
            ext_trans [OF e3 ext_item_set]]]])
  qed
  ultimately show ?case by blast
qed

lemma ext_render_element: "render_element P n e L = Return v L' \<Longrightarrow> ext P L L'"
  using ext_render [of P n] by blast


subsection \<open>Rendering an element again\<close>










subsection \<open>render\<close>

lemma enter_layout_queue:
  "rendering_queue (enter_layout P L0) = fq_put (root L0) fq_init"
  by (simp add: enter_layout_def open_element_states_def open_rendering_queue_def
        create_element_state_eq)

lemma enter_layout_root: "root (enter_layout P L0) = root L0"
  by (simp add: enter_layout_def open_element_states_def open_rendering_queue_def
        create_element_state_eq)

lemma render_cases:
  "render P L =
     (case fq_done (rendering_queue L) of
        [] \<Rightarrow> None
      | d # ds \<Rightarrow>
          Some (case snd d of
                  Inl e \<Rightarrow> Inl e
                | Inr v \<Rightarrow>
                    (case element_states L (elem_id P (root L)) of
                       None \<Rightarrow> Inl KeyError
                     | Some a \<Rightarrow> Inr (VRef (model (objs L ! a)))),
                L\<lparr>rendering_queue := (rendering_queue L)\<lparr>fq_done := ds\<rparr>\<rparr>))"
  by (cases "fq_done (rendering_queue L)")
     (auto simp: render_def fq_get_def split: sum.splits option.splits prod.splits)

text \<open>
  Claim C5: \<^verbatim>\<open>render\<close> consumes exactly one completion of the rendering queue and then
  returns \<^verbatim>\<open>self._element_states[self._root.id].model\<close>; when the Layout's resources are
  initialized the render of the root is put into the queue, so that the first \<^verbatim>\<open>render\<close>
  goes on as soon as that render has completed. \<^verbatim>\<open>render\<close> is suspended while the done
  channel of the queue is empty; otherwise it takes exactly the first finished future off
  it, changes nothing else, raises that future's failure if it failed, and else returns
  the model dictionary of the ElementState that the table has at the root's id (the
  lookup raises KeyError if there is none). After \<^verbatim>\<open>__init__\<close> and the entry of the two
  resources the only pending future is the render of the root and \<^verbatim>\<open>render\<close> is
  suspended; when the event loop has run that future to its end, the done channel holds
  exactly that future with its result, nothing is pending, and \<^verbatim>\<open>render\<close> is not suspended:
  it takes that completion and returns the root state's model.
\<close>

theorem render_takes_one_completion:
  "render P L =
     (case fq_done (rendering_queue L) of
        [] \<Rightarrow> None
      | d # ds \<Rightarrow>
          Some (case snd d of
                  Inl e \<Rightarrow> Inl e
                | Inr v \<Rightarrow>
                    (case element_states L (elem_id P (root L)) of
                       None \<Rightarrow> Inl KeyError
                     | Some a \<Rightarrow> Inr (VRef (model (objs L ! a)))),
                L\<lparr>rendering_queue := (rendering_queue L)\<lparr>fq_done := ds\<rparr>\<rparr>))
   \<and> fq_pending (rendering_queue (enter_layout P (new_layout r ds0))) = [(0, r)]
   \<and> fq_done (rendering_queue (enter_layout P (new_layout r ds0))) = []
   \<and> render P (enter_layout P (new_layout r ds0)) = None
   \<and> (\<forall>n L1. run_task P n 0 (enter_layout P (new_layout r ds0)) = Return () L1 \<longrightarrow>
         (\<exists>v L0. render_element P n r (enter_layout P (new_layout r ds0)) = Return v L0
            \<and> fq_done (rendering_queue L1) = [(0, Inr v)]
            \<and> fq_pending (rendering_queue L1) = []
            \<and> L1 = L0\<lparr>rendering_queue := rendering_queue L1\<rparr>)
         \<and> (\<exists>out. render P L1 =
                Some (out, L1\<lparr>rendering_queue := (rendering_queue L1)\<lparr>fq_done := []\<rparr>\<rparr>)
              \<and> (\<forall>a. element_states L1 (elem_id P (root L1)) = Some a \<longrightarrow>
                     out = Inr (VRef (model (objs L1 ! a))))))"
proof -
  define E where "E = enter_layout P (new_layout r ds0)"
  have q: "rendering_queue E = fq_put r fq_init"
    unfolding E_def enter_layout_queue by (simp add: new_layout_def)
  have p: "fq_pending (rendering_queue E) = [(0, r)]" and d: "fq_done (rendering_queue E) = []"
    unfolding q by (simp_all add: fq_put_def fq_init_def)
  have rn: "render P E = None" unfolding render_cases d by simp
  have t: "(\<exists>v L0. render_element P n r E = Return v L0
            \<and> fq_done (rendering_queue L1) = [(0, Inr v)]
            \<and> fq_pending (rendering_queue L1) = []
            \<and> L1 = L0\<lparr>rendering_queue := rendering_queue L1\<rparr>)
         \<and> (\<exists>out. render P L1 =
                Some (out, L1\<lparr>rendering_queue := (rendering_queue L1)\<lparr>fq_done := []\<rparr>\<rparr>)
              \<and> (\<forall>a. element_states L1 (elem_id P (root L1)) = Some a \<longrightarrow>
                     out = Inr (VRef (model (objs L1 ! a)))))"
    if run: "run_task P n 0 E = Return () L1" for n L1
  proof -
    have m: "map_of (fq_pending (rendering_queue E)) 0 = Some r" unfolding p by simp
    from run obtain v L0 where
      s1: "render_element P n r E = Return v L0"
      and s2: "(case fq_finish 0 (Inr v) (rendering_queue L0) of
               None \<Rightarrow> Raise KeyError
             | Some q \<Rightarrow> Return () (L0\<lparr>rendering_queue := q\<rparr>)) = Return () L1"
      unfolding run_task_def m option.case by (elim and_then_ReturnE)
    have q0: "rendering_queue L0 = fq_put r fq_init"
      using extD(2) [OF ext_render_element [OF s1]] q by simp
    have f: "fq_finish 0 (Inr v) (rendering_queue L0)
               = Some \<lparr>fq_pending = [], fq_done = [(0, Inr v)], fq_next = Suc 0\<rparr>"
      unfolding q0 by (simp add: fq_finish_def fq_put_def fq_init_def)
    from s2 have L1: "L1 = L0\<lparr>rendering_queue := \<lparr>fq_pending = [], fq_done = [(0, Inr v)], fq_next = Suc 0\<rparr>\<rparr>"
      unfolding f by simp
    have d1: "fq_done (rendering_queue L1) = [(0, Inr v)]"
      and p1: "fq_pending (rendering_queue L1) = []"
      and l1: "L1 = L0\<lparr>rendering_queue := rendering_queue L1\<rparr>"
      unfolding L1 by simp_all
    have a: "\<exists>v L0. render_element P n r E = Return v L0
            \<and> fq_done (rendering_queue L1) = [(0, Inr v)]
            \<and> fq_pending (rendering_queue L1) = []
            \<and> L1 = L0\<lparr>rendering_queue := rendering_queue L1\<rparr>"
      using s1 d1 p1 l1 by blast
    have b: "\<exists>out. render P L1 =
                Some (out, L1\<lparr>rendering_queue := (rendering_queue L1)\<lparr>fq_done := []\<rparr>\<rparr>)
              \<and> (\<forall>a. element_states L1 (elem_id P (root L1)) = Some a \<longrightarrow>
                     out = Inr (VRef (model (objs L1 ! a))))"
      unfolding render_cases d1 by (auto split: option.splits)
    from a b show ?thesis ..
  qed
  show ?thesis
    unfolding E_def [symmetric]
    by (intro conjI allI impI render_cases p d rn t)
qed


theorem render_takes_one_completion_witness:
  "\<exists>L1 L2. run_task nested_host (Suc (Suc (Suc (Suc 0)))) 0
             (enter_layout nested_host (new_layout 0 nested_dicts)) = Return () L1
     \<and> element_states L1 (elem_id nested_host (root L1)) = Some 0
     \<and> render nested_host L1 = Some (Inr (VRef (model (objs L1 ! 0))), L2)
     \<and> fq_done (rendering_queue L2) = []"
  using render_takes_one_completion
    [where P = nested_host and r = 0 and ?ds0.0 = nested_dicts
       and L = "enter_layout nested_host (new_layout 0 nested_dicts)"]
  by (simp add: run_task_def render_def fq_get_def fq_finish_def nested_host_def
        nested_dicts_def eval_defs)

subsection \<open>FutureQueue.get\<close>

lemma nputs_snoc:
  "nputs (ops @ [op]) = (case op of Put t \<Rightarrow> Suc (nputs ops) | _ \<Rightarrow> nputs ops)"
  by (cases op) (simp_all add: nputs_def)

lemma ngets_snoc:
  "ngets (ops @ [op]) = (case op of Get \<Rightarrow> Suc (ngets ops) | _ \<Rightarrow> ngets ops)"
  by (cases op) (simp_all add: ngets_def)

lemma note_completion_fold:
  "foldl note_completion (0, []) ops = (nputs ops, completions ops)"
proof (induction ops rule: rev_induct)
  case Nil
  show ?case by (simp add: nputs_def completions_def)
next
  case (snoc op ops)
  have "fst (foldl note_completion (0, []) (ops @ [op])) = nputs (ops @ [op])"
    using snoc by (cases op) (simp_all add: nputs_snoc)
  then show ?case by (simp add: completions_def prod_eq_iff)
qed

lemma completions_snoc:
  "completions (ops @ [op]) =
     (case op of
        Finish i out \<Rightarrow>
          if i < nputs ops \<and> i \<notin> fst ` set (completions ops)
          then completions ops @ [(i, out)] else completions ops
      | _ \<Rightarrow> completions ops)"
proof -
  have "completions (ops @ [op]) = snd (note_completion (nputs ops, completions ops) op)"
    by (simp add: completions_def [of "ops @ [op]"] note_completion_fold)
  then show ?thesis by (cases op) simp_all
qed

lemma completions_sound:
  "distinct (map fst (completions ops)) \<and>
   (\<forall>d \<in> set (completions ops). Finish (fst d) (snd d) \<in> set ops \<and> fst d < nputs ops)"
proof (induction ops rule: rev_induct)
  case Nil
  show ?case by (simp add: completions_def)
next
  case (snoc op ops)
  show ?case
  proof (cases op)
    case (Put t)
    with snoc show ?thesis by (auto simp: completions_snoc nputs_snoc)
  next
    case (Finish i out)
    with snoc show ?thesis by (auto simp: completions_snoc nputs_snoc)
  next
    case Get
    with snoc show ?thesis by (auto simp: completions_snoc nputs_snoc)
  qed
qed


lemma fq_invI:
  assumes "fst ` set (fq_pending (run_queue s)) = {i. i < nputs ops} - fst ` set (completions ops)"
    and "fq_next (run_queue s) = nputs ops"
    and "map snd (run_delivered s) @ fq_done (run_queue s) = completions ops"
    and "map fst (run_delivered s) @ run_waiting s = [0..<ngets ops]"
    and "run_calls s = ngets ops"
    and "run_waiting s = [] \<or> fq_done (run_queue s) = []"
  shows "fq_inv ops s"
  unfolding fq_inv_def by (intro conjI assms)

lemma fq_invD:
  assumes "fq_inv ops s"
  shows "fst ` set (fq_pending (run_queue s)) = {i. i < nputs ops} - fst ` set (completions ops)"
    and "fq_next (run_queue s) = nputs ops"
    and "map snd (run_delivered s) @ fq_done (run_queue s) = completions ops"
    and "map fst (run_delivered s) @ run_waiting s = [0..<ngets ops]"
    and "run_calls s = ngets ops"
    and "run_waiting s = [] \<or> fq_done (run_queue s) = []"
proof -
  from assms have c:
    "fst ` set (fq_pending (run_queue s)) = {i. i < nputs ops} - fst ` set (completions ops) \<and>
      fq_next (run_queue s) = nputs ops \<and>
      map snd (run_delivered s) @ fq_done (run_queue s) = completions ops \<and>
      map fst (run_delivered s) @ run_waiting s = [0..<ngets ops] \<and>
      run_calls s = ngets ops \<and>
      (run_waiting s = [] \<or> fq_done (run_queue s) = [])"
    unfolding fq_inv_def .
  from c show "fst ` set (fq_pending (run_queue s)) = {i. i < nputs ops} - fst ` set (completions ops)"
    by (elim conjE)
  from c show "fq_next (run_queue s) = nputs ops" by (elim conjE)
  from c show "map snd (run_delivered s) @ fq_done (run_queue s) = completions ops" by (elim conjE)
  from c show "map fst (run_delivered s) @ run_waiting s = [0..<ngets ops]" by (elim conjE)
  from c show "run_calls s = ngets ops" by (elim conjE)
  from c show "run_waiting s = [] \<or> fq_done (run_queue s) = []" by (elim conjE)
qed

lemma fq_inv_start: "fq_inv [] fq_start"
  by (rule fq_invI) (simp_all add: fq_start_def fq_init_def nputs_def ngets_def completions_def)

lemma fq_inv_put:
  assumes "fq_inv ops s"
  shows "fq_inv (ops @ [Put t]) (fq_step (Put t) s)"
proof -
  note i = fq_invD [OF assms]
  have fresh: "nputs ops \<notin> fst ` set (completions ops)"
    using completions_sound [of ops] by auto
  have c: "completions (ops @ [Put t]) = completions ops" by (simp add: completions_snoc)
  have n: "nputs (ops @ [Put t]) = Suc (nputs ops)" by (simp add: nputs_snoc)
  have g: "ngets (ops @ [Put t]) = ngets ops" by (simp add: ngets_snoc)
  have p: "fst ` set (fq_pending (fq_put t (run_queue s)))
             = insert (nputs ops) ({i. i < nputs ops} - fst ` set (completions ops))"
    using i(1) i(2) by (simp add: fq_put_def)
  have p': "insert (nputs ops) ({i. i < nputs ops} - fst ` set (completions ops))
             = {i. i < Suc (nputs ops)} - fst ` set (completions ops)"
    using fresh by (auto simp: less_Suc_eq)
  show ?thesis
  proof (rule fq_invI)
    show "fst ` set (fq_pending (run_queue (fq_step (Put t) s)))
            = {i. i < nputs (ops @ [Put t])} - fst ` set (completions (ops @ [Put t]))"
      unfolding c n using p p' by simp
    show "fq_next (run_queue (fq_step (Put t) s)) = nputs (ops @ [Put t])"
      unfolding n using i(2) by (simp add: fq_put_def)
    show "map snd (run_delivered (fq_step (Put t) s)) @ fq_done (run_queue (fq_step (Put t) s))
            = completions (ops @ [Put t])"
      unfolding c using i(3) by (simp add: fq_put_def)
    show "map fst (run_delivered (fq_step (Put t) s)) @ run_waiting (fq_step (Put t) s)
            = [0..<ngets (ops @ [Put t])]"
      unfolding g using i(4) by simp
    show "run_calls (fq_step (Put t) s) = ngets (ops @ [Put t])"
      unfolding g using i(5) by simp
    show "run_waiting (fq_step (Put t) s) = [] \<or> fq_done (run_queue (fq_step (Put t) s)) = []"
      using i(6) by (simp add: fq_put_def)
  qed
qed

lemma fq_inv_get:
  assumes "fq_inv ops s"
  shows "fq_inv (ops @ [Get]) (fq_step Get s)"
proof -
  note i = fq_invD [OF assms]
  have c: "completions (ops @ [Get]) = completions ops" by (simp add: completions_snoc)
  have n: "nputs (ops @ [Get]) = nputs ops" by (simp add: nputs_snoc)
  have g: "ngets (ops @ [Get]) = Suc (ngets ops)" by (simp add: ngets_snoc)
  show ?thesis
  proof (cases "fq_done (run_queue s)")
    case Nil
    have st: "fq_step Get s
                = s\<lparr>run_calls := Suc (run_calls s), run_waiting := run_waiting s @ [run_calls s]\<rparr>"
      using Nil by (simp add: get_call_def fq_get_def)
    show ?thesis
    proof (rule fq_invI)
      show "fst ` set (fq_pending (run_queue (fq_step Get s)))
              = {i. i < nputs (ops @ [Get])} - fst ` set (completions (ops @ [Get]))"
        unfolding c n st using i(1) by simp
      show "fq_next (run_queue (fq_step Get s)) = nputs (ops @ [Get])"
        unfolding n st using i(2) by simp
      show "map snd (run_delivered (fq_step Get s)) @ fq_done (run_queue (fq_step Get s))
              = completions (ops @ [Get])"
        unfolding c st using i(3) by simp
      have "map fst (run_delivered s) @ run_waiting s @ [run_calls s] = [0..<Suc (ngets ops)]"
        using i(4) i(5) by simp
      then show "map fst (run_delivered (fq_step Get s)) @ run_waiting (fq_step Get s)
              = [0..<ngets (ops @ [Get])]"
        unfolding g st by simp
      show "run_calls (fq_step Get s) = ngets (ops @ [Get])"
        unfolding g st using i(5) by simp
      show "run_waiting (fq_step Get s) = [] \<or> fq_done (run_queue (fq_step Get s)) = []"
        unfolding st using Nil by simp
    qed
  next
    case (Cons d ds)
    have w: "run_waiting s = []" using i(6) Cons by simp
    have st: "fq_step Get s
                = s\<lparr>run_calls := Suc (run_calls s), run_queue := (run_queue s)\<lparr>fq_done := ds\<rparr>,
                    run_delivered := run_delivered s @ [(run_calls s, d)]\<rparr>"
      using Cons by (simp add: get_call_def fq_get_def)
    show ?thesis
    proof (rule fq_invI)
      show "fst ` set (fq_pending (run_queue (fq_step Get s)))
              = {i. i < nputs (ops @ [Get])} - fst ` set (completions (ops @ [Get]))"
        unfolding c n st using i(1) by simp
      show "fq_next (run_queue (fq_step Get s)) = nputs (ops @ [Get])"
        unfolding n st using i(2) by simp
      show "map snd (run_delivered (fq_step Get s)) @ fq_done (run_queue (fq_step Get s))
              = completions (ops @ [Get])"
        unfolding c st using i(3) Cons by simp
      have "map fst (run_delivered s) @ [run_calls s] = [0..<Suc (ngets ops)]"
        using i(4) i(5) w by simp
      then show "map fst (run_delivered (fq_step Get s)) @ run_waiting (fq_step Get s)
              = [0..<ngets (ops @ [Get])]"
        unfolding g st using w by simp
      show "run_calls (fq_step Get s) = ngets (ops @ [Get])"
        unfolding g st using i(5) by simp
      show "run_waiting (fq_step Get s) = [] \<or> fq_done (run_queue (fq_step Get s)) = []"
        unfolding st using w by simp
    qed
  qed
qed


lemma fq_finish_pending:
  "i \<in> fst ` set (fq_pending q) \<Longrightarrow>
   fq_finish i out q = Some (q\<lparr>fq_pending := filter (\<lambda>p. fst p \<noteq> i) (fq_pending q),
                                fq_done := fq_done q @ [(i, out)]\<rparr>)"
  by (simp add: fq_finish_def)

lemma fq_finish_not_pending: "i \<notin> fst ` set (fq_pending q) \<Longrightarrow> fq_finish i out q = None"
  by (simp add: fq_finish_def)

lemma keys_filter_out: "fst ` set (filter (\<lambda>p. fst p \<noteq> i) ps) = fst ` set ps - {i}"
  by auto

lemma fq_inv_finish:
  assumes "fq_inv ops s"
  shows "fq_inv (ops @ [Finish i out]) (fq_step (Finish i out) s)"
proof -
  note j = fq_invD [OF assms]
  have n: "nputs (ops @ [Finish i out]) = nputs ops" by (simp add: nputs_snoc)
  have g: "ngets (ops @ [Finish i out]) = ngets ops" by (simp add: ngets_snoc)
  show ?thesis
  proof (cases "i \<in> fst ` set (fq_pending (run_queue s))")
    case False
    then have "\<not> (i < nputs ops \<and> i \<notin> fst ` set (completions ops))"
      unfolding j(1) by simp
    then have c: "completions (ops @ [Finish i out]) = completions ops"
      by (simp add: completions_snoc)
    have st: "fq_step (Finish i out) s = s"
      using fq_finish_not_pending [OF False] by simp
    show ?thesis
      unfolding st by (rule fq_invI) (simp_all only: c n g j)
  next
    case True
    then have "i < nputs ops \<and> i \<notin> fst ` set (completions ops)"
      unfolding j(1) by simp
    then have c: "completions (ops @ [Finish i out]) = completions ops @ [(i, out)]"
      by (simp add: completions_snoc)
    define q' where "q' = (run_queue s)\<lparr>fq_pending := filter (\<lambda>p. fst p \<noteq> i) (fq_pending (run_queue s)),
                                fq_done := fq_done (run_queue s) @ [(i, out)]\<rparr>"
    have fin: "fq_finish i out (run_queue s) = Some q'"
      unfolding q'_def by (rule fq_finish_pending [OF True])
    have pq: "fst ` set (fq_pending q')
                = {k. k < nputs ops} - fst ` set (completions ops @ [(i, out)])"
      unfolding q'_def using j(1) by (auto simp: keys_filter_out)
    have nq: "fq_next q' = nputs ops" unfolding q'_def using j(2) by simp
    have dq: "fq_done q' = fq_done (run_queue s) @ [(i, out)]" unfolding q'_def by simp
    show ?thesis
    proof (cases "run_waiting s")
      case Nil
      have st: "fq_step (Finish i out) s = s\<lparr>run_queue := q'\<rparr>"
        using fin Nil by simp
      show ?thesis
      proof (rule fq_invI)
        show "fst ` set (fq_pending (run_queue (fq_step (Finish i out) s)))
                = {k. k < nputs (ops @ [Finish i out])} - fst ` set (completions (ops @ [Finish i out]))"
          unfolding c n st using pq by simp
        show "fq_next (run_queue (fq_step (Finish i out) s)) = nputs (ops @ [Finish i out])"
          unfolding n st using nq by simp
        show "map snd (run_delivered (fq_step (Finish i out) s))
                @ fq_done (run_queue (fq_step (Finish i out) s)) = completions (ops @ [Finish i out])"
          unfolding c st using j(3) dq by simp
        show "map fst (run_delivered (fq_step (Finish i out) s)) @ run_waiting (fq_step (Finish i out) s)
                = [0..<ngets (ops @ [Finish i out])]"
          unfolding g st using j(4) by simp
        show "run_calls (fq_step (Finish i out) s) = ngets (ops @ [Finish i out])"
          unfolding g st using j(5) by simp
        show "run_waiting (fq_step (Finish i out) s) = []
                \<or> fq_done (run_queue (fq_step (Finish i out) s)) = []"
          unfolding st using Nil by simp
      qed
    next
      case (Cons w ws)
      have d0: "fq_done (run_queue s) = []" using j(6) Cons by simp
      have dq1: "fq_done q' = [(i, out)]" using dq d0 by simp
      have st: "fq_step (Finish i out) s
                  = s\<lparr>run_queue := q'\<lparr>fq_done := []\<rparr>, run_waiting := ws,
                      run_delivered := run_delivered s @ [(w, (i, out))]\<rparr>"
        using fin Cons dq1 by (simp add: get_call_def fq_get_def)
      show ?thesis
      proof (rule fq_invI)
        show "fst ` set (fq_pending (run_queue (fq_step (Finish i out) s)))
                = {k. k < nputs (ops @ [Finish i out])} - fst ` set (completions (ops @ [Finish i out]))"
          unfolding c n st using pq by simp
        show "fq_next (run_queue (fq_step (Finish i out) s)) = nputs (ops @ [Finish i out])"
          unfolding n st using nq by simp
        have "map snd (run_delivered s) = completions ops" using j(3) d0 by simp
        then show "map snd (run_delivered (fq_step (Finish i out) s))
                @ fq_done (run_queue (fq_step (Finish i out) s)) = completions (ops @ [Finish i out])"
          unfolding c st by simp
        show "map fst (run_delivered (fq_step (Finish i out) s)) @ run_waiting (fq_step (Finish i out) s)
                = [0..<ngets (ops @ [Finish i out])]"
          unfolding g st using j(4) Cons by simp
        show "run_calls (fq_step (Finish i out) s) = ngets (ops @ [Finish i out])"
          unfolding g st using j(5) by simp
        show "run_waiting (fq_step (Finish i out) s) = []
                \<or> fq_done (run_queue (fq_step (Finish i out) s)) = []"
          unfolding st by simp
      qed
    qed
  qed
qed

lemma fq_run_snoc: "fq_run (ops @ [op]) = fq_step op (fq_run ops)"
  by (simp add: fq_run_def)

lemma fq_inv_run: "fq_inv ops (fq_run ops)"
proof (induction ops rule: rev_induct)
  case Nil
  show ?case by (simp add: fq_run_def fq_inv_start)
next
  case (snoc op ops)
  show ?case
  proof (cases op)
    case (Put t)
    show ?thesis unfolding Put fq_run_snoc by (rule fq_inv_put [OF snoc])
  next
    case (Finish i out)
    show ?thesis unfolding Finish fq_run_snoc by (rule fq_inv_finish [OF snoc])
  next
    case Get
    show ?thesis unfolding Get fq_run_snoc by (rule fq_inv_get [OF snoc])
  qed
qed


text \<open>
  Claim C8: \<^verbatim>\<open>FutureQueue.get\<close> suspends until a task registered by \<^verbatim>\<open>put\<close> has reached a
  terminal state, then consumes exactly one completion and returns that task's result or
  raises that task's own failure; a completed task is delivered by at most one call.
  For a single queue: \<^verbatim>\<open>get\<close> is suspended exactly while the done channel is empty and
  otherwise takes exactly its head; \<^verbatim>\<open>put\<close> registers the task as pending; when a pending
  future reaches a terminal state, it is appended to the done channel with its outcome, and
  \<^verbatim>\<open>get\<close> is not suspended afterwards. For every run from the empty queue: the pending
  futures are the tasks put that have not finished; what the calls of \<^verbatim>\<open>get\<close> delivered,
  followed by the done channel, is the list of the terminal states reached, in their order
  and with their outcomes (nothing is lost, nothing is delivered twice); the calls delivered
  to, followed by the suspended calls, are the calls made, in their order; no call is
  suspended while the done channel holds a future, so the number of deliveries is the
  smaller of the number of calls and the number of finished tasks; the futures delivered
  are pairwise distinct, each one put and finished in the run with the outcome delivered.
\<close>

theorem future_queue_get:
  fixes q :: "('t, 'r) future_queue" and ops :: "('t, 'r) fq_op list"
  shows
  "(fq_get q = None \<longleftrightarrow> fq_done q = []) \<and>
   (\<forall>d q'. fq_get q = Some (d, q') \<longrightarrow>
      fq_done q = d # fq_done q' \<and> fq_pending q' = fq_pending q \<and> fq_next q' = fq_next q) \<and>
   (fq_next q, t) \<in> set (fq_pending (fq_put t q)) \<and>
   (\<forall>i out. i \<in> fst ` set (fq_pending q) \<longrightarrow>
      (\<exists>q'. fq_finish i out q = Some q' \<and> fq_done q' = fq_done q @ [(i, out)] \<and>
            fq_get q' \<noteq> None)) \<and>
   fst ` set (fq_pending (run_queue (fq_run ops)))
     = {i. i < nputs ops} - fst ` set (completions ops) \<and>
   map snd (run_delivered (fq_run ops)) @ fq_done (run_queue (fq_run ops)) = completions ops \<and>
   map fst (run_delivered (fq_run ops)) @ run_waiting (fq_run ops) = [0..<ngets ops] \<and>
   (run_waiting (fq_run ops) = [] \<or> fq_done (run_queue (fq_run ops)) = []) \<and>
   length (run_delivered (fq_run ops)) = min (ngets ops) (length (completions ops)) \<and>
   distinct (map (\<lambda>d. fst (snd d)) (run_delivered (fq_run ops))) \<and>
   (\<forall>d \<in> set (run_delivered (fq_run ops)).
      Finish (fst (snd d)) (snd (snd d)) \<in> set ops \<and> fst (snd d) < nputs ops)"
proof -
  have g1: "fq_get q = None \<longleftrightarrow> fq_done q = []"
    by (cases "fq_done q") (simp_all add: fq_get_def)
  have g2: "\<forall>d q'. fq_get q = Some (d, q') \<longrightarrow>
      fq_done q = d # fq_done q' \<and> fq_pending q' = fq_pending q \<and> fq_next q' = fq_next q"
    by (cases "fq_done q") (auto simp: fq_get_def)
  have g3: "(fq_next q, t) \<in> set (fq_pending (fq_put t q))"
    by (simp add: fq_put_def)
  have g4: "\<forall>i out. i \<in> fst ` set (fq_pending q) \<longrightarrow>
      (\<exists>q'. fq_finish i out q = Some q' \<and> fq_done q' = fq_done q @ [(i, out)] \<and>
            fq_get q' \<noteq> None)"
  proof (intro allI impI)
    fix i and out :: "exn + 'r"
    assume p: "i \<in> fst ` set (fq_pending q)"
    show "\<exists>q'. fq_finish i out q = Some q' \<and> fq_done q' = fq_done q @ [(i, out)] \<and>
            fq_get q' \<noteq> None"
      unfolding fq_finish_pending [OF p]
      by (rule exI [of _ "q\<lparr>fq_pending := filter (\<lambda>p. fst p \<noteq> i) (fq_pending q),
                                fq_done := fq_done q @ [(i, out)]\<rparr>"])
         (cases "fq_done q", simp_all add: fq_get_def)
  qed
  note r = fq_invD [OF fq_inv_run [of ops]]
  note cs = completions_sound [of ops]
  have sub: "set (map snd (run_delivered (fq_run ops))) \<subseteq> set (completions ops)"
    unfolding r(3) [symmetric] by simp
  have "distinct (map fst (map snd (run_delivered (fq_run ops)) @ fq_done (run_queue (fq_run ops))))"
    unfolding r(3) using cs by simp
  then have "distinct (map fst (map snd (run_delivered (fq_run ops))))"
    by simp
  then have g9: "distinct (map (\<lambda>d. fst (snd d)) (run_delivered (fq_run ops)))"
    by (simp add: comp_def)
  have g10: "\<forall>d \<in> set (run_delivered (fq_run ops)).
      Finish (fst (snd d)) (snd (snd d)) \<in> set ops \<and> fst (snd d) < nputs ops"
  proof
    fix d assume "d \<in> set (run_delivered (fq_run ops))"
    then have "snd d \<in> set (completions ops)" using sub by auto
    with cs show "Finish (fst (snd d)) (snd (snd d)) \<in> set ops \<and> fst (snd d) < nputs ops"
      by blast
  qed
  have l1: "length (run_delivered (fq_run ops)) + length (fq_done (run_queue (fq_run ops)))
              = length (completions ops)"
    using arg_cong [OF r(3), of length] by simp
  have l2: "length (run_delivered (fq_run ops)) + length (run_waiting (fq_run ops)) = ngets ops"
    using arg_cong [OF r(4), of length] by simp
  have g8: "length (run_delivered (fq_run ops)) = min (ngets ops) (length (completions ops))"
    using r(6) l1 l2 by (elim disjE) simp_all
  show ?thesis
    by (intro conjI g1 g2 g3 g4 r(1) r(3) r(4) r(6) g8 g9 g10)
qed

theorem future_queue_get_witness:
  "(\<exists>q'. fq_finish 0 (Inr (5::nat)) (fq_put (7::nat) fq_init) = Some q' \<and> fq_get q' \<noteq> None)
   \<and> run_delivered (fq_run [Put (7::nat), Get, Finish 0 (Inr (5::nat))]) = [(0, 0, Inr 5)]
   \<and> run_waiting (fq_run [Put (7::nat), Get, Finish 0 (Inr (5::nat))]) = []
   \<and> completions [Put (7::nat), Get, Finish 0 (Inr (5::nat))] = [(0, Inr 5)]"
  using future_queue_get
    [of "fq_put (7::nat) (fq_init :: (nat, nat) future_queue)" 8
        "[Put (7::nat), Get, Finish 0 (Inr (5::nat))]"]
  by (simp add: fq_run_def fq_start_def get_call_def fq_put_def fq_finish_def fq_get_def
        fq_init_def completions_def nputs_def ngets_def)

subsection \<open>trigger\<close>

lemma invoke_all_ok:
  "\<forall>f \<in> set fs. fn_call P f d = None \<Longrightarrow>
   invoke P fs d L = Return () (L\<lparr>trace := trace L @ map (\<lambda>f. Called f d) fs\<rparr>)"
  by (induction fs arbitrary: L) simp_all

lemma invoke_first_failure:
  "\<forall>g \<in> set fs. fn_call P g d = None \<Longrightarrow> fn_call P f d = Some e \<Longrightarrow>
   invoke P (fs @ f # rest) d L = Raise e"
  by (induction fs arbitrary: L) simp_all

text \<open>
  Claim C4: \<^verbatim>\<open>trigger\<close> of an event whose target is not in the table of event handlers
  returns and leaves the Layout as it was, no callback being called; when the target is
  registered the handler is called with the event's data: if every callback returns,
  \<^verbatim>\<open>trigger\<close> returns and the callbacks have been called in order with that data, and the
  failure of the first callback that raises is what \<^verbatim>\<open>trigger\<close> raises.
\<close>

theorem trigger_dispatch:
  "(event_handlers L (target ev) = None \<longrightarrow> trigger P ev L = Return () L) \<and>
   (\<forall>h. event_handlers L (target ev) = Some h \<longrightarrow>
      ((\<forall>f \<in> set (callbacks h). fn_call P f (data ev) = None) \<longrightarrow>
         trigger P ev L =
           Return () (L\<lparr>trace := trace L @ map (\<lambda>f. Called f (data ev)) (callbacks h)\<rparr>)) \<and>
      (\<forall>fs f rest e.
         callbacks h = fs @ f # rest \<and> (\<forall>g \<in> set fs. fn_call P g (data ev) = None) \<and>
         fn_call P f (data ev) = Some e \<longrightarrow> trigger P ev L = Raise e))"
  by (auto simp: trigger_def invoke_all_ok invoke_first_failure)

theorem trigger_dispatch_witness:
  "trigger failing_host \<lparr>target = ''x'', data = [VInt 1]\<rparr> handler_layout
     = Return () handler_layout
   \<and> trigger failing_host \<lparr>target = ''g'', data = [VInt 1]\<rparr> handler_layout
     = Return () (handler_layout\<lparr>trace := [Called 0 [VInt 1]]\<rparr>)
   \<and> trigger failing_host \<lparr>target = ''h'', data = [VInt 1]\<rparr> handler_layout
     = Raise (HostError ''boom'')"
  using trigger_dispatch
    [of handler_layout "\<lparr>target = ''x'', data = [VInt 1]\<rparr>" failing_host]
    trigger_dispatch
    [of handler_layout "\<lparr>target = ''g'', data = [VInt 1]\<rparr>" failing_host]
  by (simp add: trigger_def failing_host_def handler_layout_def new_layout_def)

end
